theory Spec2Isabelle
  imports Main "HOL-Library.AList" "HOL-Library.Multiset"
begin

section \<open>Python values, objects and the heap\<close>

text \<open>
  The registry keeps its records in a \<^verbatim>\<open>shelve\<close> file and hands them out as Python
  dictionaries, which the decoration functions then mutate in place. The model
  therefore separates two kinds of data.

  \<^item> A \<^emph>\<open>pickled\<close> value is what the shelf holds on disk: an immutable tree. The shelf is
    opened with \<^verbatim>\<open>shelve.open(path)\<close>, that is with \<^verbatim>\<open>writeback=False\<close>, so
    \<^verbatim>\<open>shelf[key] = obj\<close> stores a pickle of \<^verbatim>\<open>obj\<close> and every \<^verbatim>\<open>shelf[key]\<close> unpickles a
    fresh object.
  \<^item> A Python value in a variable or in a container slot is \<^verbatim>\<open>None\<close>, a string, or a
    reference to a mutable object (a dictionary or a list) on the heap.

  A dictionary is an association list in insertion order with distinct keys; a field
  assignment is \<open>AList.update\<close>, a field deletion is \<open>AList.delete\<close>.
\<close>

type_synonym addr = nat

datatype pyval = VNone | VStr string | VRef addr

datatype pyobj = ODict "(string \<times> pyval) list" | OList "pyval list"

type_synonym heap = "pyobj list"

datatype pickled =
    PNone
  | PStr string
  | PDict "(string \<times> pickled) list"
  | PList "pickled list"

datatype error = KeyError string | TypeError | PicklingError

record state =
  shelf :: "(string \<times> pickled) list"
  heap :: heap
  dbm_order :: "string list \<Rightarrow> string \<Rightarrow> nat"

text \<open>
  The state is the shelf, the heap and \<open>dbm_order\<close>, the order in which the dbm file
  behind the shelf arranges its keys after an insert (see the section on the shelf).
  Every operation maps a state to an outcome and the state it leaves behind: an
  exception (\<open>Inl\<close>) does not undo what was written before it was raised.
\<close>

type_synonym 'a outcome = "(error + 'a) \<times> state"

subsection \<open>Pickling and unpickling\<close>

text \<open>
  \<open>pickle_fuel n h v\<close> reads the object graph reachable from \<open>v\<close> as a tree, following at
  most \<open>n\<close> references on each path. \<open>pickle h v\<close> gives it as many units of fuel as the
  heap has cells, which is enough for every path that visits no cell twice; \<open>None\<close> stands
  for a dangling reference or a cyclic graph (which a tree cannot hold; the registry never
  builds one). The same function serves as the deep
  value of an object when two objects are compared.
\<close>

fun pickle_fuel :: "nat \<Rightarrow> heap \<Rightarrow> pyval \<Rightarrow> pickled option" where
  "pickle_fuel n h VNone = Some PNone"
| "pickle_fuel n h (VStr s) = Some (PStr s)"
| "pickle_fuel 0 h (VRef a) = None"
| "pickle_fuel (Suc n) h (VRef a) =
     (if a < length h then
        (case h ! a of
           ODict d \<Rightarrow>
             map_option PDict
               (those (map (\<lambda>kv. map_option (Pair (fst kv)) (pickle_fuel n h (snd kv))) d))
         | OList xs \<Rightarrow> map_option PList (those (map (pickle_fuel n h) xs)))
      else None)"

definition pickle :: "heap \<Rightarrow> pyval \<Rightarrow> pickled option" where
  "pickle h v = pickle_fuel (length h) h v"

text \<open>Unpickling allocates one fresh heap cell for every dictionary and list of the tree.\<close>

fun unpickle :: "pickled \<Rightarrow> heap \<Rightarrow> pyval \<times> heap"
  and unpickle_items :: "pickled list \<Rightarrow> heap \<Rightarrow> pyval list \<times> heap"
  and unpickle_fields :: "(string \<times> pickled) list \<Rightarrow> heap \<Rightarrow> (string \<times> pyval) list \<times> heap"
where
  "unpickle PNone h = (VNone, h)"
| "unpickle (PStr s) h = (VStr s, h)"
| "unpickle (PDict d) h =
     (case unpickle_fields d h of (d', h') \<Rightarrow> (VRef (length h'), h' @ [ODict d']))"
| "unpickle (PList xs) h =
     (case unpickle_items xs h of (xs', h') \<Rightarrow> (VRef (length h'), h' @ [OList xs']))"
| "unpickle_items [] h = ([], h)"
| "unpickle_items (x # xs) h =
     (case unpickle x h of (v, h1) \<Rightarrow>
        case unpickle_items xs h1 of (vs, h2) \<Rightarrow> (v # vs, h2))"
| "unpickle_fields [] h = ([], h)"
| "unpickle_fields (kx # d) h =
     (case unpickle (snd kx) h of (v, h1) \<Rightarrow>
        case unpickle_fields d h1 of (d', h2) \<Rightarrow> ((fst kx, v) # d', h2))"

subsection \<open>Operations on Python values\<close>

definition alloc :: "pyobj \<Rightarrow> state \<Rightarrow> pyval \<times> state" where
  "alloc obj s = (VRef (length (heap s)), s\<lparr>heap := heap s @ [obj]\<rparr>)"

text \<open>\<^verbatim>\<open>prefix + v\<close> and every other place that needs a string: anything else is a TypeError.\<close>

definition as_str :: "pyval \<Rightarrow> error + string" where
  "as_str v = (case v of VStr x \<Rightarrow> Inr x | _ \<Rightarrow> Inl TypeError)"

text \<open>
  \<^verbatim>\<open>obj[k]\<close> for a string \<open>k\<close>: a KeyError on a dictionary without the key, a TypeError on
  \<^verbatim>\<open>None\<close>, a string or a list. An address beyond the heap cannot arise in Python; the
  model answers it with a TypeError as well.
\<close>

definition py_getitem :: "heap \<Rightarrow> pyval \<Rightarrow> string \<Rightarrow> error + pyval" where
  "py_getitem h obj k =
     (case obj of
        VRef a \<Rightarrow>
          (if a < length h then
             (case h ! a of
                ODict d \<Rightarrow> (case map_of d k of None \<Rightarrow> Inl (KeyError k) | Some v \<Rightarrow> Inr v)
              | OList xs \<Rightarrow> Inl TypeError)
           else Inl TypeError)
      | _ \<Rightarrow> Inl TypeError)"

text \<open>\<^verbatim>\<open>obj[k] = v\<close>: the object at the address is updated in place.\<close>

definition py_setitem :: "pyval \<Rightarrow> string \<Rightarrow> pyval \<Rightarrow> heap \<Rightarrow> error + heap" where
  "py_setitem obj k v h =
     (case obj of
        VRef a \<Rightarrow>
          (if a < length h then
             (case h ! a of
                ODict d \<Rightarrow> Inr (h[a := ODict (AList.update k v d)])
              | OList xs \<Rightarrow> Inl TypeError)
           else Inl TypeError)
      | _ \<Rightarrow> Inl TypeError)"

text \<open>\<^verbatim>\<open>del obj[k]\<close>: a KeyError when the dictionary has no such key.\<close>

definition py_delitem :: "pyval \<Rightarrow> string \<Rightarrow> heap \<Rightarrow> error + heap" where
  "py_delitem obj k h =
     (case obj of
        VRef a \<Rightarrow>
          (if a < length h then
             (case h ! a of
                ODict d \<Rightarrow>
                  (if k \<in> set (map fst d) then Inr (h[a := ODict (AList.delete k d)])
                   else Inl (KeyError k))
              | OList xs \<Rightarrow> Inl TypeError)
           else Inl TypeError)
      | _ \<Rightarrow> Inl TypeError)"

text \<open>
  \<^verbatim>\<open>x == y\<close>. \<^verbatim>\<open>None\<close> is equal to \<^verbatim>\<open>None\<close> only and a string to the same string only. Two
  containers are equal when they are the same object or have equal deep values: lists
  element by element, dictionaries when they have the same keys with equal values, in any
  order.
\<close>

fun pickled_eq :: "pickled \<Rightarrow> pickled \<Rightarrow> bool"
  and items_eq :: "pickled list \<Rightarrow> pickled list \<Rightarrow> bool"
  and fields_in :: "(string \<times> pickled) list \<Rightarrow> (string \<times> pickled) list \<Rightarrow> bool"
where
  "pickled_eq PNone q = (q = PNone)"
| "pickled_eq (PStr x) q = (q = PStr x)"
| "pickled_eq (PDict d) q =
     (case q of PDict e \<Rightarrow> length d = length e \<and> fields_in d e | _ \<Rightarrow> False)"
| "pickled_eq (PList xs) q = (case q of PList ys \<Rightarrow> items_eq xs ys | _ \<Rightarrow> False)"
| "items_eq [] ys = (ys = [])"
| "items_eq (x # xs) ys =
     (case ys of [] \<Rightarrow> False | y # ys' \<Rightarrow> pickled_eq x y \<and> items_eq xs ys')"
| "fields_in [] e = True"
| "fields_in (kv # d) e =
     ((case map_of e (fst kv) of None \<Rightarrow> False | Some w \<Rightarrow> pickled_eq (snd kv) w) \<and>
      fields_in d e)"

definition py_eq :: "heap \<Rightarrow> pyval \<Rightarrow> pyval \<Rightarrow> bool" where
  "py_eq h x y =
     (case x of
        VRef a \<Rightarrow>
          (case y of
             VRef b \<Rightarrow>
               a = b \<or>
               (case pickle h x of
                  None \<Rightarrow> False
                | Some p \<Rightarrow> (case pickle h y of None \<Rightarrow> False | Some q \<Rightarrow> pickled_eq p q))
           | _ \<Rightarrow> False)
      | _ \<Rightarrow> x = y)"

text \<open>\<^verbatim>\<open>for x in v\<close>: the elements of a list, the keys of a dictionary, the characters of a string.\<close>

definition py_iter :: "heap \<Rightarrow> pyval \<Rightarrow> error + pyval list" where
  "py_iter h v =
     (case v of
        VNone \<Rightarrow> Inl TypeError
      | VStr x \<Rightarrow> Inr (map (\<lambda>c. VStr [c]) x)
      | VRef a \<Rightarrow>
          (if a < length h then
             (case h ! a of
                ODict d \<Rightarrow> Inr (map (\<lambda>kv. VStr (fst kv)) d)
              | OList xs \<Rightarrow> Inr xs)
           else Inl TypeError))"


text \<open>\<^verbatim>\<open>key.startswith(prefix)\<close>.\<close>

fun startswith :: "string \<Rightarrow> string \<Rightarrow> bool" where
  "startswith key [] = True"
| "startswith [] (c # p) = False"
| "startswith (d # key) (c # p) = (d = c \<and> startswith key p)"

section \<open>The shelf\<close>

text \<open>
  The shelf is an association list from key to pickle, in the order in which
  \<^verbatim>\<open>shelf.keys()\<close> enumerates it. That order is the dbm file's own business. Overwriting
  the value of a key and deleting a key leave the other keys in their order, but inserting
  a new key may put all keys in a new order. The model takes that order from the state:
  \<open>dbm_order s ks\<close> ranks the keys \<open>ks\<close> that the file holds after the insert, and the
  entries are sorted by it. Any order can arise this way, and nothing is assumed of
  \<open>dbm_order\<close>; the theorems hold for every one.

  A shelf holds each key once, \<open>distinct (map fst (shelf s))\<close>: the theorems that need
  this assume it, and every write keeps it.
\<close>

definition shelf_keys :: "state \<Rightarrow> string list" where
  "shelf_keys s = map fst (shelf s)"

definition shelf_contains :: "string \<Rightarrow> state \<Rightarrow> bool" where
  "shelf_contains k s = (k \<in> set (map fst (shelf s)))"

definition shelf_getitem :: "string \<Rightarrow> state \<Rightarrow> pyval outcome" where
  "shelf_getitem k s =
     (case map_of (shelf s) k of
        None \<Rightarrow> (Inl (KeyError k), s)
      | Some p \<Rightarrow> (case unpickle p (heap s) of (v, h') \<Rightarrow> (Inr v, s\<lparr>heap := h'\<rparr>)))"

definition dbm_insert :: "state \<Rightarrow> string \<Rightarrow> pickled \<Rightarrow> (string \<times> pickled) list" where
  "dbm_insert s k p =
     (let entries = shelf s @ [(k, p)]
      in sort_key (\<lambda>kv. dbm_order s (map fst entries) (fst kv)) entries)"

definition dbm_store :: "state \<Rightarrow> string \<Rightarrow> pickled \<Rightarrow> (string \<times> pickled) list" where
  "dbm_store s k p =
     (if shelf_contains k s then AList.update k p (shelf s) else dbm_insert s k p)"

text \<open>
  \<^verbatim>\<open>shelf[k] = v\<close> pickles \<open>v\<close> and stores the pickle. A pickle is a tree here, so an object
  graph with a cycle, which Python's pickle would store, is a \<open>PicklingError\<close> in the model;
  the records of the registry are dictionaries of strings.
\<close>

definition shelf_setitem :: "string \<Rightarrow> pyval \<Rightarrow> state \<Rightarrow> unit outcome" where
  "shelf_setitem k v s =
     (case pickle (heap s) v of
        None \<Rightarrow> (Inl PicklingError, s)
      | Some p \<Rightarrow> (Inr (), s\<lparr>shelf := dbm_store s k p\<rparr>))"

definition shelf_delitem :: "string \<Rightarrow> state \<Rightarrow> unit outcome" where
  "shelf_delitem k s =
     (if shelf_contains k s then (Inr (), s\<lparr>shelf := AList.delete k (shelf s)\<rparr>)
      else (Inl (KeyError k), s))"

section \<open>Repository\<close>

record repository =
  prefix :: string

definition Repository :: "string \<Rightarrow> repository" where
  "Repository p = \<lparr>prefix = p @ '':''\<rparr>"

definition get_device_repo :: repository where
  "get_device_repo = Repository ''device''"

definition get_room_repo :: repository where
  "get_room_repo = Repository ''room''"

text \<open>
  The loop of \<^verbatim>\<open>find_all\<close>. The list under construction is local until it is returned, so
  it is carried as a value and put on the heap by \<open>find_all\<close>.
\<close>

fun find_all_loop :: "repository \<Rightarrow> string list \<Rightarrow> pyval list \<Rightarrow> state \<Rightarrow> (pyval list) outcome" where
  "find_all_loop r [] objects s = (Inr objects, s)"
| "find_all_loop r (key # keys) objects s =
     (if startswith key (prefix r) then
        (case shelf_getitem key s of
           (Inl e, s') \<Rightarrow> (Inl e, s')
         | (Inr v, s') \<Rightarrow> find_all_loop r keys (objects @ [v]) s')
      else find_all_loop r keys objects s)"

definition find_all :: "repository \<Rightarrow> state \<Rightarrow> pyval outcome" where
  "find_all r s =
     (case find_all_loop r (shelf_keys s) [] s of
        (Inl e, s') \<Rightarrow> (Inl e, s')
      | (Inr objects, s') \<Rightarrow> (case alloc (OList objects) s' of (v, s'') \<Rightarrow> (Inr v, s'')))"

definition find :: "repository \<Rightarrow> string \<Rightarrow> state \<Rightarrow> pyval outcome" where
  "find r identifier s =
     (let identifier' = prefix r @ identifier in
      if \<not> shelf_contains identifier' s then (Inr VNone, s)
      else shelf_getitem identifier' s)"

fun find_by_loop :: "heap \<Rightarrow> string \<Rightarrow> pyval \<Rightarrow> pyval list \<Rightarrow> pyval list \<Rightarrow> error + pyval list" where
  "find_by_loop h key value [] objects = Inr objects"
| "find_by_loop h key value (obj # objs) objects =
     (case py_getitem h obj key of
        Inl e \<Rightarrow> Inl e
      | Inr v \<Rightarrow>
          (if py_eq h v value then find_by_loop h key value objs (objects @ [obj])
           else find_by_loop h key value objs objects))"

definition find_by :: "repository \<Rightarrow> string \<Rightarrow> pyval \<Rightarrow> state \<Rightarrow> pyval outcome" where
  "find_by r key value s =
     (case find_all r s of
        (Inl e, s1) \<Rightarrow> (Inl e, s1)
      | (Inr all, s1) \<Rightarrow>
          (case py_iter (heap s1) all of
             Inl e \<Rightarrow> (Inl e, s1)
           | Inr objs \<Rightarrow>
               (case find_by_loop (heap s1) key value objs [] of
                  Inl e \<Rightarrow> (Inl e, s1)
                | Inr objects \<Rightarrow>
                    (case alloc (OList objects) s1 of (v, s2) \<Rightarrow> (Inr v, s2)))))"

definition save :: "repository \<Rightarrow> pyval \<Rightarrow> state \<Rightarrow> unit outcome" where
  "save r obj s =
     (case py_getitem (heap s) obj ''identifier'' of
        Inl e \<Rightarrow> (Inl e, s)
      | Inr i \<Rightarrow>
          (case as_str i of
             Inl e \<Rightarrow> (Inl e, s)
           | Inr identifier \<Rightarrow> shelf_setitem (prefix r @ identifier) obj s))"

definition delete :: "repository \<Rightarrow> string \<Rightarrow> state \<Rightarrow> unit outcome" where
  "delete r identifier s = shelf_delitem (prefix r @ identifier) s"

section \<open>Decorators\<close>

definition decorate_with_room :: "repository \<Rightarrow> pyval \<Rightarrow> state \<Rightarrow> unit outcome" where
  "decorate_with_room room_repository device s =
     (case py_getitem (heap s) device ''room_identifier'' of
        Inl e \<Rightarrow> (Inl e, s)
      | Inr i \<Rightarrow>
          (case as_str i of
             Inl e \<Rightarrow> (Inl e, s)
           | Inr identifier \<Rightarrow>
               (case find room_repository identifier s of
                  (Inl e, s1) \<Rightarrow> (Inl e, s1)
                | (Inr room, s1) \<Rightarrow>
                    (case py_setitem device ''room'' room (heap s1) of
                       Inl e \<Rightarrow> (Inl e, s1)
                     | Inr h2 \<Rightarrow>
                         (case py_delitem device ''room_identifier'' h2 of
                            Inl e \<Rightarrow> (Inl e, s1\<lparr>heap := h2\<rparr>)
                          | Inr h3 \<Rightarrow> (Inr (), s1\<lparr>heap := h3\<rparr>))))))"

fun strip_room_identifier :: "pyval list \<Rightarrow> heap \<Rightarrow> (error + unit) \<times> heap" where
  "strip_room_identifier [] h = (Inr (), h)"
| "strip_room_identifier (device # devices) h =
     (case py_delitem device ''room_identifier'' h of
        Inl e \<Rightarrow> (Inl e, h)
      | Inr h' \<Rightarrow> strip_room_identifier devices h')"

definition decorate_with_devices :: "repository \<Rightarrow> pyval \<Rightarrow> state \<Rightarrow> unit outcome" where
  "decorate_with_devices device_repository room s =
     (case py_getitem (heap s) room ''identifier'' of
        Inl e \<Rightarrow> (Inl e, s)
      | Inr identifier \<Rightarrow>
          (case find_by device_repository ''room_identifier'' identifier s of
             (Inl e, s1) \<Rightarrow> (Inl e, s1)
           | (Inr devices, s1) \<Rightarrow>
               (case py_iter (heap s1) devices of
                  Inl e \<Rightarrow> (Inl e, s1)
                | Inr ds \<Rightarrow>
                    (case strip_room_identifier ds (heap s1) of
                       (Inl e, h2) \<Rightarrow> (Inl e, s1\<lparr>heap := h2\<rparr>)
                     | (Inr u, h2) \<Rightarrow>
                         (case py_setitem room ''devices'' devices h2 of
                            Inl e \<Rightarrow> (Inl e, s1\<lparr>heap := h2\<rparr>)
                          | Inr h3 \<Rightarrow> (Inr (), s1\<lparr>heap := h3\<rparr>))))))"

section \<open>The HTTP resources\<close>

text \<open>
  A handler returns a body and a status code. \<^verbatim>\<open>parse_args()\<close> belongs to the framework:
  the model starts from its result, a fresh dictionary of the required arguments, all
  strings, in the order in which they were added to the parser (so \<^verbatim>\<open>args['identifier']\<close>
  is the string that was passed). The \<^verbatim>\<open>print\<close> to stderr is left out.
\<close>

datatype body = Empty | Message string | MessageData string pyval

type_synonym response = "body \<times> nat"

fun decorate_each_with_room :: "pyval list \<Rightarrow> state \<Rightarrow> unit outcome" where
  "decorate_each_with_room [] s = (Inr (), s)"
| "decorate_each_with_room (device # devices) s =
     (case decorate_with_room get_room_repo device s of
        (Inl e, s') \<Rightarrow> (Inl e, s')
      | (Inr u, s') \<Rightarrow> decorate_each_with_room devices s')"

fun decorate_each_with_devices :: "pyval list \<Rightarrow> state \<Rightarrow> unit outcome" where
  "decorate_each_with_devices [] s = (Inr (), s)"
| "decorate_each_with_devices (room # rooms) s =
     (case decorate_with_devices get_device_repo room s of
        (Inl e, s') \<Rightarrow> (Inl e, s')
      | (Inr u, s') \<Rightarrow> decorate_each_with_devices rooms s')"

definition DeviceList_get :: "state \<Rightarrow> response outcome" where
  "DeviceList_get s =
     (case find_all get_device_repo s of
        (Inl e, s1) \<Rightarrow> (Inl e, s1)
      | (Inr devices, s1) \<Rightarrow>
          (case py_iter (heap s1) devices of
             Inl e \<Rightarrow> (Inl e, s1)
           | Inr ds \<Rightarrow>
               (case decorate_each_with_room ds s1 of
                  (Inl e, s2) \<Rightarrow> (Inl e, s2)
                | (Inr u, s2) \<Rightarrow> (Inr (MessageData ''Retrieved all devices'' devices, 200), s2))))"

definition DeviceList_post ::
  "string \<Rightarrow> string \<Rightarrow> string \<Rightarrow> string \<Rightarrow> string \<Rightarrow> state \<Rightarrow> response outcome" where
  "DeviceList_post identifier name device_type controller_name room_identifier s =
     (case alloc (ODict [(''identifier'', VStr identifier), (''name'', VStr name),
                         (''device_type'', VStr device_type),
                         (''controller_name'', VStr controller_name),
                         (''room_identifier'', VStr room_identifier)]) s of
        (args, s0) \<Rightarrow>
          (case find get_room_repo room_identifier s0 of
             (Inl e, s1) \<Rightarrow> (Inl e, s1)
           | (Inr room, s1) \<Rightarrow>
               (if room = VNone then (Inr (Message ''Room does not exist'', 400), s1)
                else
                  (case save get_device_repo args s1 of
                     (Inl e, s2) \<Rightarrow> (Inl e, s2)
                   | (Inr u, s2) \<Rightarrow>
                       (case find get_device_repo identifier s2 of
                          (Inl e, s3) \<Rightarrow> (Inl e, s3)
                        | (Inr device, s3) \<Rightarrow>
                            (case decorate_with_room get_room_repo device s3 of
                               (Inl e, s4) \<Rightarrow> (Inl e, s4)
                             | (Inr u', s4) \<Rightarrow>
                                 (Inr (MessageData ''Device registered'' device, 201), s4)))))))"

definition Device_get :: "string \<Rightarrow> state \<Rightarrow> response outcome" where
  "Device_get identifier s =
     (case find get_device_repo identifier s of
        (Inl e, s1) \<Rightarrow> (Inl e, s1)
      | (Inr device, s1) \<Rightarrow>
          (if device = VNone then (Inr (Message ''Device not found'', 404), s1)
           else
             (case decorate_with_room get_room_repo device s1 of
                (Inl e, s2) \<Rightarrow> (Inl e, s2)
              | (Inr u, s2) \<Rightarrow> (Inr (MessageData ''Device found'' device, 200), s2))))"


definition RoomList_get :: "state \<Rightarrow> response outcome" where
  "RoomList_get s =
     (case find_all get_room_repo s of
        (Inl e, s1) \<Rightarrow> (Inl e, s1)
      | (Inr rooms, s1) \<Rightarrow>
          (case py_iter (heap s1) rooms of
             Inl e \<Rightarrow> (Inl e, s1)
           | Inr rs \<Rightarrow>
               (case decorate_each_with_devices rs s1 of
                  (Inl e, s2) \<Rightarrow> (Inl e, s2)
                | (Inr u, s2) \<Rightarrow> (Inr (MessageData ''Retrieved all rooms'' rooms, 200), s2))))"

definition RoomList_post :: "string \<Rightarrow> string \<Rightarrow> state \<Rightarrow> response outcome" where
  "RoomList_post identifier name s =
     (case alloc (ODict [(''identifier'', VStr identifier), (''name'', VStr name)]) s of
        (args, s0) \<Rightarrow>
          (case save get_room_repo args s0 of
             (Inl e, s1) \<Rightarrow> (Inl e, s1)
           | (Inr u, s1) \<Rightarrow>
               (case find get_room_repo identifier s1 of
                  (Inl e, s2) \<Rightarrow> (Inl e, s2)
                | (Inr room, s2) \<Rightarrow>
                    (case decorate_with_devices get_device_repo room s2 of
                       (Inl e, s3) \<Rightarrow> (Inl e, s3)
                     | (Inr u', s3) \<Rightarrow>
                         (Inr (MessageData ''Room registered'' room, 201), s3)))))"

definition Room_get :: "string \<Rightarrow> state \<Rightarrow> response outcome" where
  "Room_get identifier s =
     (case find get_room_repo identifier s of
        (Inl e, s1) \<Rightarrow> (Inl e, s1)
      | (Inr room, s1) \<Rightarrow>
          (if room = VNone then (Inr (Message ''Room not found'', 404), s1)
           else
             (case decorate_with_devices get_device_repo room s1 of
                (Inl e, s2) \<Rightarrow> (Inl e, s2)
              | (Inr u, s2) \<Rightarrow> (Inr (MessageData ''Room found'' room, 200), s2))))"


section \<open>Notions used to state the properties\<close>

text \<open>
  The records of a repository's collection, as the shelf holds them: the values of the
  keys that start with the repository's prefix, in the order of the shelf.
\<close>

definition collection :: "repository \<Rightarrow> (string \<times> pickled) list \<Rightarrow> pickled list" where
  "collection r sh = map snd (filter (\<lambda>kv. startswith (fst kv) (prefix r)) sh)"

text \<open>A stored record is a dictionary; \<open>has_field\<close> and \<open>field_is\<close> read a field of it.\<close>

definition is_record :: "pickled \<Rightarrow> bool" where
  "is_record p = (case p of PDict d \<Rightarrow> True | _ \<Rightarrow> False)"

definition has_field :: "string \<Rightarrow> pickled \<Rightarrow> bool" where
  "has_field k p = (case p of PDict d \<Rightarrow> k \<in> set (map fst d) | _ \<Rightarrow> False)"

definition field_is :: "string \<Rightarrow> string \<Rightarrow> pickled \<Rightarrow> bool" where
  "field_is k x p = (case p of PDict d \<Rightarrow> map_of d k = Some (PStr x) | _ \<Rightarrow> False)"

text \<open>\<open>agrees h h'\<close>: the heap \<open>h'\<close> has every cell of \<open>h\<close>, unchanged, and possibly more.\<close>

definition agrees :: "heap \<Rightarrow> heap \<Rightarrow> bool" where
  "agrees h h' = (length h \<le> length h' \<and> (\<forall>i < length h. h' ! i = h ! i))"

definition pickle_field :: "nat \<Rightarrow> heap \<Rightarrow> string \<times> pyval \<Rightarrow> (string \<times> pickled) option" where
  "pickle_field n h kv = map_option (Pair (fst kv)) (pickle_fuel n h (snd kv))"

text \<open>
  The records of the data model are flat: every field is a string (or \<^verbatim>\<open>None\<close>).
  \<open>unflat_fields\<close> is the dictionary that unpickling makes of such a record.
\<close>

definition is_flat :: "pickled \<Rightarrow> bool" where
  "is_flat p = (case p of PNone \<Rightarrow> True | PStr x \<Rightarrow> True | _ \<Rightarrow> False)"

definition flat_record :: "(string \<times> pickled) list \<Rightarrow> bool" where
  "flat_record d = list_all (\<lambda>kv. is_flat (snd kv)) d"

definition unflat :: "pickled \<Rightarrow> pyval" where
  "unflat p = (case p of PStr x \<Rightarrow> VStr x | _ \<Rightarrow> VNone)"

definition unflat_fields :: "(string \<times> pickled) list \<Rightarrow> (string \<times> pyval) list" where
  "unflat_fields d = map (\<lambda>kv. (fst kv, unflat (snd kv))) d"

subsection \<open>Example stores\<close>

text \<open>
  Two ways in which a dbm file may order its keys after an insert: as they were, the new key
  last; and with all device keys before all room keys.
\<close>

definition keep_order :: "string list \<Rightarrow> string \<Rightarrow> nat" where
  "keep_order ks k = 0"

definition devices_first :: "string list \<Rightarrow> string \<Rightarrow> nat" where
  "devices_first ks k = (if startswith k ''device:'' then 0 else 1)"

definition room_r1 :: pickled where
  "room_r1 = PDict [(''identifier'', PStr ''r1''), (''name'', PStr ''hall'')]"

definition device_d1 :: pickled where
  "device_d1 = PDict [(''identifier'', PStr ''d1''), (''name'', PStr ''lamp''),
                      (''device_type'', PStr ''light''), (''controller_name'', PStr ''hub''),
                      (''room_identifier'', PStr ''r1'')]"


text \<open>One room with one device in it, and the same room with two devices in it.\<close>

definition store_one_device :: state where
  "store_one_device = \<lparr>shelf = [(''room:r1'', room_r1), (''device:d1'', device_d1)], heap = [], dbm_order = keep_order\<rparr>"


section \<open>Pickling: frame and round trip\<close>

lemma those_map_cong:
  "\<forall>x \<in> set xs. f x = g x \<Longrightarrow> those (map f xs) = those (map g xs)"
  by (induction xs) (auto split: option.splits)

lemma those_map_SomeD:
  "those (map f xs) = Some ys \<Longrightarrow> x \<in> set xs \<Longrightarrow> \<exists>y. f x = Some y"
  by (induction xs arbitrary: ys) (auto split: option.splits)

lemma pickle_fuel_mono:
  "pickle_fuel n h v = Some t \<Longrightarrow> n \<le> m \<Longrightarrow> length h \<le> length h' \<Longrightarrow>
   \<forall>i < length h. h' ! i = h ! i \<Longrightarrow> pickle_fuel m h' v = Some t"
proof (induction n h v arbitrary: m t rule: pickle_fuel.induct)
  case (4 n h a)
  from "4.prems"(2) obtain m' where m: "m = Suc m'" and nm: "n \<le> m'"
    by (cases m) auto
  from "4.prems"(1) have a: "a < length h"
    by (auto split: if_splits)
  with "4.prems" have a': "a < length h'" and eq: "h' ! a = h ! a"
    by auto
  show ?case
  proof (cases "h ! a")
    case (ODict d)
    let ?f = "\<lambda>kv. map_option (Pair (fst kv)) (pickle_fuel n h (snd kv))"
    let ?g = "\<lambda>kv. map_option (Pair (fst kv)) (pickle_fuel m' h' (snd kv))"
    from "4.prems"(1) a ODict obtain d' where d': "those (map ?f d) = Some d'" and t: "t = PDict d'"
      by auto
    have "\<forall>kv \<in> set d. ?g kv = ?f kv"
    proof
      fix kv assume kv: "kv \<in> set d"
      from those_map_SomeD [OF d' kv] obtain y where "pickle_fuel n h (snd kv) = Some y"
        by auto
      from "4.IH"(1) [OF a ODict kv this nm "4.prems"(3) "4.prems"(4)] this
      show "?g kv = ?f kv" by simp
    qed
    then have "those (map ?g d) = those (map ?f d)"
      by (rule those_map_cong)
    with d' t a' eq ODict m show ?thesis by simp
  next
    case (OList xs)
    from "4.prems"(1) a OList obtain ys where ys: "those (map (pickle_fuel n h) xs) = Some ys" and t: "t = PList ys"
      by auto
    have "\<forall>x \<in> set xs. pickle_fuel m' h' x = pickle_fuel n h x"
    proof
      fix x assume x: "x \<in> set xs"
      from those_map_SomeD [OF ys x] obtain y where "pickle_fuel n h x = Some y"
        by auto
      from "4.IH"(2) [OF a OList x this nm "4.prems"(3) "4.prems"(4)] this
      show "pickle_fuel m' h' x = pickle_fuel n h x" by simp
    qed
    then have "those (map (pickle_fuel m' h') xs) = those (map (pickle_fuel n h) xs)"
      by (rule those_map_cong)
    with ys t a' eq OList m show ?thesis by simp
  qed
qed auto

lemma agrees_append [simp]: "agrees h (h @ ext)"
  by (simp add: agrees_def nth_append)

lemma agrees_refl [simp]: "agrees h h"
  by (simp add: agrees_def)

lemma agrees_trans: "agrees h1 h2 \<Longrightarrow> agrees h2 h3 \<Longrightarrow> agrees h1 h3"
  by (auto simp: agrees_def)

lemma pickle_fuel_agrees:
  "pickle_fuel n h v = Some t \<Longrightarrow> n \<le> m \<Longrightarrow> agrees h h' \<Longrightarrow> pickle_fuel m h' v = Some t"
  using pickle_fuel_mono [of n h v t m h'] by (simp add: agrees_def)

lemma pickle_items_agrees:
  assumes "those (map (pickle_fuel n h) xs) = Some ys" "n \<le> m" "agrees h h'"
  shows "those (map (pickle_fuel m h') xs) = Some ys"
proof -
  have "\<forall>x \<in> set xs. pickle_fuel m h' x = pickle_fuel n h x"
  proof
    fix x assume "x \<in> set xs"
    from those_map_SomeD [OF assms(1) this] obtain y where y: "pickle_fuel n h x = Some y"
      by auto
    from pickle_fuel_agrees [OF y assms(2,3)] y
    show "pickle_fuel m h' x = pickle_fuel n h x" by simp
  qed
  then have "those (map (pickle_fuel m h') xs) = those (map (pickle_fuel n h) xs)"
    by (rule those_map_cong)
  with assms(1) show ?thesis by simp
qed

lemma pickle_fields_agrees:
  assumes "those (map (pickle_field n h) d) = Some d'" "n \<le> m" "agrees h h'"
  shows "those (map (pickle_field m h') d) = Some d'"
proof -
  have "\<forall>kv \<in> set d. pickle_field m h' kv = pickle_field n h kv"
  proof
    fix kv assume "kv \<in> set d"
    from those_map_SomeD [OF assms(1) this] obtain y where y: "pickle_fuel n h (snd kv) = Some y"
      by (auto simp: pickle_field_def)
    from pickle_fuel_agrees [OF y assms(2,3)] y
    show "pickle_field m h' kv = pickle_field n h kv" by (simp add: pickle_field_def)
  qed
  then have "those (map (pickle_field m h') d) = those (map (pickle_field n h) d)"
    by (rule those_map_cong)
  with assms(1) show ?thesis by simp
qed

lemma pickle_fuel_Suc_ref:
  "pickle_fuel (Suc n) h (VRef a) =
     (if a < length h then
        (case h ! a of
           ODict d \<Rightarrow> map_option PDict (those (map (pickle_field n h) d))
         | OList xs \<Rightarrow> map_option PList (those (map (pickle_fuel n h) xs)))
      else None)"
  unfolding pickle_field_def [abs_def] by simp

lemma pickle_field_Pair: "pickle_field n h (k, v) = map_option (Pair k) (pickle_fuel n h v)"
  by (simp add: pickle_field_def)

lemma unpickle_roundtrip:
  "\<exists>ext. snd (unpickle t h) = h @ ext \<and>
         pickle_fuel (length ext) (h @ ext) (fst (unpickle t h)) = Some t"
  "\<exists>ext. snd (unpickle_items xs h) = h @ ext \<and>
         those (map (pickle_fuel (length ext) (h @ ext)) (fst (unpickle_items xs h))) = Some xs"
  "\<exists>ext. snd (unpickle_fields d h) = h @ ext \<and>
         those (map (pickle_field (length ext) (h @ ext)) (fst (unpickle_fields d h))) = Some d"
proof (induction t h and xs h and d h rule: unpickle_unpickle_items_unpickle_fields.induct)
  case (1 h)
  show ?case by simp
next
  case (2 s h)
  show ?case by simp
next
  case (3 d h)
  then obtain ext where e: "snd (unpickle_fields d h) = h @ ext"
    and p: "those (map (pickle_field (length ext) (h @ ext)) (fst (unpickle_fields d h))) = Some d"
    by blast
  obtain d' h' where u: "unpickle_fields d h = (d', h')"
    by (cases "unpickle_fields d h")
  with e p have h': "h' = h @ ext" and p': "those (map (pickle_field (length ext) h') d') = Some d"
    by auto
  have "those (map (pickle_field (length ext) (h' @ [ODict d'])) d') = Some d"
    by (rule pickle_fields_agrees [OF p']) simp_all
  then have "pickle_fuel (Suc (length ext)) (h' @ [ODict d']) (VRef (length h')) = Some (PDict d)"
    by (simp only: pickle_fuel_Suc_ref) simp
  with u h' show ?case
    by (intro exI [of _ "ext @ [ODict d']"]) simp
next
  case (4 xs h)
  then obtain ext where e: "snd (unpickle_items xs h) = h @ ext"
    and p: "those (map (pickle_fuel (length ext) (h @ ext)) (fst (unpickle_items xs h))) = Some xs"
    by blast
  obtain xs' h' where u: "unpickle_items xs h = (xs', h')"
    by (cases "unpickle_items xs h")
  with e p have h': "h' = h @ ext" and p': "those (map (pickle_fuel (length ext) h') xs') = Some xs"
    by auto
  have "those (map (pickle_fuel (length ext) (h' @ [OList xs'])) xs') = Some xs"
    by (rule pickle_items_agrees [OF p']) simp_all
  then have "pickle_fuel (Suc (length ext)) (h' @ [OList xs']) (VRef (length h')) = Some (PList xs)"
    by (simp only: pickle_fuel_Suc_ref) simp
  with u h' show ?case
    by (intro exI [of _ "ext @ [OList xs']"]) simp
next
  case (5 h)
  show ?case by simp
next
  case (6 x xs h)
  obtain v h1 where u1: "unpickle x h = (v, h1)"
    by (cases "unpickle x h")
  obtain vs h2 where u2: "unpickle_items xs h1 = (vs, h2)"
    by (cases "unpickle_items xs h1")
  from "6.IH"(1) u1 obtain e1 where h1: "h1 = h @ e1" and p1: "pickle_fuel (length e1) h1 v = Some x"
    by auto
  from "6.IH"(2) [OF u1 [symmetric]] u2 obtain e2 where h2: "h2 = h1 @ e2"
    and p2: "those (map (pickle_fuel (length e2) h2) vs) = Some xs"
    by auto
  have a: "pickle_fuel (length (e1 @ e2)) h2 v = Some x"
    by (rule pickle_fuel_agrees [OF p1]) (simp_all add: h2)
  have b: "those (map (pickle_fuel (length (e1 @ e2)) h2) vs) = Some xs"
    by (rule pickle_items_agrees [OF p2]) simp_all
  from a b u1 u2 h1 h2 show ?case
    by (intro exI [of _ "e1 @ e2"]) simp
next
  case (7 h)
  show ?case by simp
next
  case (8 kx d h)
  obtain v h1 where u1: "unpickle (snd kx) h = (v, h1)"
    by (cases "unpickle (snd kx) h")
  obtain d' h2 where u2: "unpickle_fields d h1 = (d', h2)"
    by (cases "unpickle_fields d h1")
  from "8.IH"(1) u1 obtain e1 where h1: "h1 = h @ e1" and p1: "pickle_fuel (length e1) h1 v = Some (snd kx)"
    by auto
  from "8.IH"(2) [OF u1 [symmetric]] u2 obtain e2 where h2: "h2 = h1 @ e2"
    and p2: "those (map (pickle_field (length e2) h2) d') = Some d"
    by auto
  have a: "pickle_fuel (length (e1 @ e2)) h2 v = Some (snd kx)"
    by (rule pickle_fuel_agrees [OF p1]) (simp_all add: h2)
  have b: "those (map (pickle_field (length (e1 @ e2)) h2) d') = Some d"
    by (rule pickle_fields_agrees [OF p2]) simp_all
  from a b u1 u2 h1 h2 show ?case
    by (intro exI [of _ "e1 @ e2"]) (simp add: pickle_field_Pair)
qed

lemma pickle_agrees: "pickle h v = Some t \<Longrightarrow> agrees h h' \<Longrightarrow> pickle h' v = Some t"
  unfolding pickle_def by (rule pickle_fuel_agrees) (auto simp: agrees_def)

lemma unpickle_pickle:
  assumes "unpickle t h = (v, h')"
  shows "agrees h h' \<and> pickle h' v = Some t"
proof -
  from unpickle_roundtrip(1) [of t h] assms obtain ext where h': "h' = h @ ext"
    and p: "pickle_fuel (length ext) h' v = Some t"
    by auto
  have "pickle_fuel (length h') h' v = Some t"
    by (rule pickle_fuel_agrees [OF p]) (simp_all add: h')
  with h' show ?thesis by (simp add: pickle_def)
qed

lemma pickle_new_list:
  assumes "list_all2 (\<lambda>v p. pickle h v = Some p) vs ps"
  shows "pickle (h @ [OList vs]) (VRef (length h)) = Some (PList ps)"
proof -
  have "those (map (pickle_fuel (length h) h) vs) = Some ps"
    using assms
  proof (induction rule: list_all2_induct)
    case Nil
    show ?case by simp
  next
    case (Cons v p vs ps)
    then show ?case by (simp add: pickle_def)
  qed
  then have "those (map (pickle_fuel (length h) (h @ [OList vs])) vs) = Some ps"
    by (rule pickle_items_agrees) simp_all
  then show ?thesis by (simp add: pickle_def)
qed

lemma py_eq_VStr: "py_eq h v (VStr x) \<longleftrightarrow> v = VStr x"
  by (cases v) (auto simp: py_eq_def)

lemma pickle_fuel_PStr: "pickle_fuel n h v = Some (PStr x) \<longleftrightarrow> v = VStr x"
proof (cases v)
  case (VRef a)
  then show ?thesis
    by (cases n) (auto split: pyobj.splits)
qed auto

lemma pickle_fields_lookup:
  "those (map (pickle_field n h) d') = Some d \<Longrightarrow>
   map fst d = map fst d' \<and>
   map_of d k = (case map_of d' k of None \<Rightarrow> None | Some v \<Rightarrow> pickle_fuel n h v)"
proof (induction d' arbitrary: d)
  case Nil
  then show ?case by simp
next
  case (Cons kv d')
  obtain k0 v0 where kv: "kv = (k0, v0)"
    by (cases kv)
  from Cons.prems kv obtain y ys where y: "pickle_fuel n h v0 = Some y"
    and ys: "those (map (pickle_field n h) d') = Some ys" and d: "d = (k0, y) # ys"
    by (auto simp: pickle_field_Pair split: option.splits)
  from Cons.IH [OF ys] y d kv show ?case
    by auto
qed

lemma pickle_PDict_cell:
  assumes "pickle h obj = Some (PDict d)"
  obtains a n d' where "obj = VRef a" "a < length h" "h ! a = ODict d'" "length h = Suc n"
    "those (map (pickle_field n h) d') = Some d"
proof -
  from assms obtain a where a: "obj = VRef a"
    by (cases obj) (auto simp: pickle_def)
  from assms a obtain n where n: "length h = Suc n"
    by (cases "length h") (auto simp: pickle_def)
  from assms a n have p: "pickle_fuel (Suc n) h (VRef a) = Some (PDict d)"
    by (simp add: pickle_def)
  then have al: "a < length h"
    by (auto split: if_splits)
  from p al obtain d' where "h ! a = ODict d'" "those (map (pickle_field n h) d') = Some d"
    by (auto simp only: pickle_fuel_Suc_ref split: pyobj.splits if_splits)
  with that a al n show ?thesis by blast
qed

lemma getitem_of_pickle:
  assumes "pickle h obj = Some p" "has_field k p"
  shows "\<exists>v. py_getitem h obj k = Inr v \<and> (\<forall>x. py_eq h v (VStr x) \<longleftrightarrow> field_is k x p)"
proof -
  from assms(2) obtain d where p: "p = PDict d" and k: "k \<in> set (map fst d)"
    by (cases p) (auto simp: has_field_def)
  from assms(1) p obtain a n d' where c: "obj = VRef a" "a < length h" "h ! a = ODict d'"
    "those (map (pickle_field n h) d') = Some d"
    by (auto elim: pickle_PDict_cell)
  from pickle_fields_lookup [OF c(4), of k]
  have keys: "map fst d = map fst d'"
    and look: "map_of d k = (case map_of d' k of None \<Rightarrow> None | Some v \<Rightarrow> pickle_fuel n h v)"
    by auto
  from k keys obtain v where v: "map_of d' k = Some v"
    by (cases "map_of d' k") (auto simp: map_of_eq_None_iff image_iff)
  with look have "map_of d k = pickle_fuel n h v" by simp
  then have "\<forall>x. py_eq h v (VStr x) \<longleftrightarrow> field_is k x p"
    by (auto simp: py_eq_VStr field_is_def p pickle_fuel_PStr)
  with c v show ?thesis by (simp add: py_getitem_def)
qed

lemma getitem_missing_of_pickle:
  assumes "pickle h obj = Some p" "is_record p" "\<not> has_field k p"
  shows "py_getitem h obj k = Inl (KeyError k)"
proof -
  from assms(2,3) obtain d where p: "p = PDict d" and k: "k \<notin> set (map fst d)"
    by (cases p) (auto simp: has_field_def is_record_def)
  from assms(1) p obtain a n d' where c: "obj = VRef a" "a < length h" "h ! a = ODict d'"
    "those (map (pickle_field n h) d') = Some d"
    by (auto elim: pickle_PDict_cell)
  from pickle_fields_lookup [OF c(4), of k] k have "map_of d' k = None"
    by (auto simp: map_of_eq_None_iff image_iff)
  with c show ?thesis by (simp add: py_getitem_def)
qed

section \<open>The shelf and the repository\<close>

lemma shelf_contains_iff: "shelf_contains k s \<longleftrightarrow> map_of (shelf s) k \<noteq> None"
  by (simp add: shelf_contains_def map_of_eq_None_iff)

lemma shelf_getitem_Some:
  assumes "map_of (shelf s) k = Some p"
  shows "\<exists>v s'. shelf_getitem k s = (Inr v, s') \<and> shelf s' = shelf s \<and>
           agrees (heap s) (heap s') \<and> pickle (heap s') v = Some p"
proof -
  obtain v h' where u: "unpickle p (heap s) = (v, h')"
    by (cases "unpickle p (heap s)")
  from unpickle_pickle [OF u] assms u show ?thesis
    by (simp add: shelf_getitem_def)
qed

lemma find_absent:
  "\<not> shelf_contains (prefix r @ i) s \<Longrightarrow> find r i s = (Inr VNone, s)"
  by (simp add: find_def)

lemma find_present:
  assumes "map_of (shelf s) (prefix r @ i) = Some p"
  shows "\<exists>v s'. find r i s = (Inr v, s') \<and> shelf s' = shelf s \<and>
           agrees (heap s) (heap s') \<and> pickle (heap s') v = Some p"
  using shelf_getitem_Some [OF assms] assms
  by (simp add: find_def shelf_contains_iff)


lemma update_absent: "k \<notin> fst ` set al \<Longrightarrow> AList.update k v al = al @ [(k, v)]"
  by (induction al) auto

lemma mset_dbm_store: "mset (dbm_store s k p) = mset (AList.update k p (shelf s))"
  by (simp add: dbm_store_def dbm_insert_def shelf_contains_def update_absent)

lemma distinct_dbm_store:
  assumes "distinct (map fst (shelf s))"
  shows "distinct (map fst (dbm_store s k p))"
proof -
  have "mset (map fst (dbm_store s k p)) = mset (map fst (AList.update k p (shelf s)))"
    by (simp add: mset_dbm_store)
  moreover have "distinct (map fst (AList.update k p (shelf s)))"
    using assms by (simp add: AList.distinct_update)
  ultimately show ?thesis
    using mset_eq_imp_distinct_iff by blast
qed

lemma map_of_unique:
  "(k, p) \<in> set xs \<Longrightarrow> \<forall>kv \<in> set xs. fst kv = k \<longrightarrow> snd kv = p \<Longrightarrow> map_of xs k = Some p"
  by (induction xs) auto

lemma map_of_dbm_store_same: "map_of (dbm_store s k p) k = Some p"
proof (cases "shelf_contains k s")
  case True
  then show ?thesis by (simp add: dbm_store_def AList.update_conv')
next
  case False
  let ?f = "\<lambda>kv. dbm_order s (map fst (shelf s @ [(k, p)])) (fst kv)"
  have "\<forall>kv \<in> set (sort_key ?f (shelf s @ [(k, p)])). fst kv = k \<longrightarrow> snd kv = p"
    using False by (auto simp: shelf_contains_def)
  moreover have "(k, p) \<in> set (sort_key ?f (shelf s @ [(k, p)]))"
    by simp
  ultimately have "map_of (sort_key ?f (shelf s @ [(k, p)])) k = Some p"
    by (rule map_of_unique [rotated])
  with False show ?thesis by (simp add: dbm_store_def dbm_insert_def)
qed


lemma save_stores:
  assumes "py_getitem (heap s) obj ''identifier'' = Inr (VStr i)" "pickle (heap s) obj = Some p"
  shows "save r obj s = (Inr (), s\<lparr>shelf := dbm_store s (prefix r @ i) p\<rparr>)"
  using assms by (simp add: save_def as_str_def shelf_setitem_def)

lemma delete_removes:
  "shelf_contains (prefix r @ i) s \<Longrightarrow>
   delete r i s = (Inr (), s\<lparr>shelf := AList.delete (prefix r @ i) (shelf s)\<rparr>)"
  by (simp add: delete_def shelf_delitem_def)

lemma delete_missing:
  "\<not> shelf_contains (prefix r @ i) s \<Longrightarrow> delete r i s = (Inl (KeyError (prefix r @ i)), s)"
  by (simp add: delete_def shelf_delitem_def)

lemma find_all_loop_values:
  assumes "\<forall>k \<in> set keys. map_of (shelf s) k \<noteq> None"
  shows "\<exists>vs s'. find_all_loop r keys objs s = (Inr (objs @ vs), s') \<and> shelf s' = shelf s \<and>
           agrees (heap s) (heap s') \<and>
           list_all2 (\<lambda>v p. pickle (heap s') v = Some p) vs
             (map (\<lambda>k. the (map_of (shelf s) k)) (filter (\<lambda>k. startswith k (prefix r)) keys))"
  using assms
proof (induction keys arbitrary: objs s)
  case Nil
  show ?case by simp
next
  case (Cons key keys)
  show ?case
  proof (cases "startswith key (prefix r)")
    case False
    with Cons.IH [of s objs] Cons.prems show ?thesis by simp
  next
    case True
    from Cons.prems obtain p where p: "map_of (shelf s) key = Some p"
      by auto
    from shelf_getitem_Some [OF p] obtain v s1 where g: "shelf_getitem key s = (Inr v, s1)"
      and sh: "shelf s1 = shelf s" and a1: "agrees (heap s) (heap s1)"
      and pv: "pickle (heap s1) v = Some p"
      by blast
    from Cons.prems sh have "\<forall>k \<in> set keys. map_of (shelf s1) k \<noteq> None"
      by simp
    from Cons.IH [OF this, of "objs @ [v]"] obtain vs s'
      where l: "find_all_loop r keys (objs @ [v]) s1 = (Inr ((objs @ [v]) @ vs), s')"
        and sh': "shelf s' = shelf s1" and a2: "agrees (heap s1) (heap s')"
        and vs: "list_all2 (\<lambda>v p. pickle (heap s') v = Some p) vs
                   (map (\<lambda>k. the (map_of (shelf s1) k)) (filter (\<lambda>k. startswith k (prefix r)) keys))"
      by blast
    from pickle_agrees [OF pv a2] have pv': "pickle (heap s') v = Some p" .
    from True g l have "find_all_loop r (key # keys) objs s = (Inr (objs @ (v # vs)), s')"
      by simp
    moreover from sh sh' have "shelf s' = shelf s" by simp
    moreover from a1 a2 have "agrees (heap s) (heap s')" by (rule agrees_trans)
    moreover from True p pv' vs sh
    have "list_all2 (\<lambda>v p. pickle (heap s') v = Some p) (v # vs)
            (map (\<lambda>k. the (map_of (shelf s) k)) (filter (\<lambda>k. startswith k (prefix r)) (key # keys)))"
      by simp
    ultimately show ?thesis by blast
  qed
qed

lemma collection_via_keys:
  "distinct (map fst sh) \<Longrightarrow>
   map (\<lambda>k. the (map_of sh k)) (filter P (map fst sh)) = map snd (filter (\<lambda>kv. P (fst kv)) sh)"
proof (induction sh)
  case Nil
  show ?case by simp
next
  case (Cons kv sh)
  then have notin: "fst kv \<notin> set (map fst sh)" and d: "distinct (map fst sh)"
    by auto
  have "map (\<lambda>k. the (map_of (kv # sh) k)) (filter P (map fst sh))
          = map (\<lambda>k. the (map_of sh k)) (filter P (map fst sh))"
    using notin by (intro map_cong) (auto simp del: set_map)
  with Cons.IH [OF d] show ?case by (cases kv) auto
qed

lemma list_all2_pickle_agrees:
  assumes "list_all2 (\<lambda>v p. pickle h v = Some p) vs ps" "agrees h h'"
  shows "list_all2 (\<lambda>v p. pickle h' v = Some p) vs ps"
  using assms(1)
proof (rule list_all2_mono)
  fix v p assume "pickle h v = Some p"
  from pickle_agrees [OF this assms(2)] show "pickle h' v = Some p" .
qed

lemma find_all_collection:
  assumes "distinct (map fst (shelf s))"
  shows "\<exists>l vs s'. find_all r s = (Inr (VRef l), s') \<and> shelf s' = shelf s \<and>
           agrees (heap s) (heap s') \<and> l < length (heap s') \<and> heap s' ! l = OList vs \<and>
           list_all2 (\<lambda>v p. pickle (heap s') v = Some p) vs (collection r (shelf s)) \<and>
           pickle (heap s') (VRef l) = Some (PList (collection r (shelf s)))"
proof -
  have "\<forall>k \<in> set (shelf_keys s). map_of (shelf s) k \<noteq> None"
    by (simp add: shelf_keys_def map_of_eq_None_iff)
  from find_all_loop_values [OF this, of r "[]"] obtain vs s1
    where l: "find_all_loop r (shelf_keys s) [] s = (Inr vs, s1)"
      and sh: "shelf s1 = shelf s" and a: "agrees (heap s) (heap s1)"
      and vs: "list_all2 (\<lambda>v p. pickle (heap s1) v = Some p) vs
                 (map (\<lambda>k. the (map_of (shelf s) k))
                    (filter (\<lambda>k. startswith k (prefix r)) (shelf_keys s)))"
    by auto
  from collection_via_keys [OF assms, of "\<lambda>k. startswith k (prefix r)"] vs
  have vs1: "list_all2 (\<lambda>v p. pickle (heap s1) v = Some p) vs (collection r (shelf s))"
    by (simp add: shelf_keys_def collection_def)
  let ?s' = "s1\<lparr>heap := heap s1 @ [OList vs]\<rparr>"
  have f: "find_all r s = (Inr (VRef (length (heap s1))), ?s')"
    using l by (simp add: find_all_def alloc_def)
  have a': "agrees (heap s1) (heap ?s')" by simp
  have vs': "list_all2 (\<lambda>v p. pickle (heap ?s') v = Some p) vs (collection r (shelf s))"
    using vs1 a' by (rule list_all2_pickle_agrees)
  have "pickle (heap ?s') (VRef (length (heap s1))) = Some (PList (collection r (shelf s)))"
    using pickle_new_list [OF vs1] by simp
  moreover have "agrees (heap s) (heap ?s')"
    using a a' by (rule agrees_trans)
  ultimately show ?thesis using f sh vs' by auto
qed

lemma find_by_loop_filter:
  assumes "list_all2 (\<lambda>v p. pickle h v = Some p) objs ps" "\<forall>p \<in> set ps. has_field key p"
  shows "\<exists>vs. find_by_loop h key (VStr value) objs acc = Inr (acc @ vs) \<and>
           list_all2 (\<lambda>v p. pickle h v = Some p) vs (filter (field_is key value) ps)"
  using assms
proof (induction arbitrary: acc rule: list_all2_induct)
  case Nil
  show ?case by simp
next
  case (Cons obj objs p ps)
  from getitem_of_pickle [OF Cons.hyps(1), of key] Cons.prems
  obtain v where g: "py_getitem h obj key = Inr v"
    and e: "py_eq h v (VStr value) \<longleftrightarrow> field_is key value p"
    by auto
  show ?case
  proof (cases "field_is key value p")
    case True
    from Cons.IH [of "acc @ [obj]"] Cons.prems obtain vs
      where "find_by_loop h key (VStr value) objs (acc @ [obj]) = Inr ((acc @ [obj]) @ vs)"
        and "list_all2 (\<lambda>v p. pickle h v = Some p) vs (filter (field_is key value) ps)"
      by auto
    with True g e Cons.hyps(1) show ?thesis
      by (intro exI [of _ "obj # vs"]) simp
  next
    case False
    from Cons.IH [of acc] Cons.prems obtain vs
      where "find_by_loop h key (VStr value) objs acc = Inr (acc @ vs)"
        and "list_all2 (\<lambda>v p. pickle h v = Some p) vs (filter (field_is key value) ps)"
      by auto
    with False g e show ?thesis
      by (intro exI [of _ vs]) simp
  qed
qed

lemma find_by_loop_missing:
  assumes "list_all2 (\<lambda>v p. pickle h v = Some p) objs ps" "\<forall>p \<in> set ps. is_record p"
    "\<exists>p \<in> set ps. \<not> has_field key p"
  shows "find_by_loop h key value objs acc = Inl (KeyError key)"
  using assms
proof (induction arbitrary: acc rule: list_all2_induct)
  case Nil
  then show ?case by simp
next
  case (Cons obj objs p ps)
  show ?case
  proof (cases "has_field key p")
    case False
    from getitem_missing_of_pickle [OF Cons.hyps(1) _ False] Cons.prems
    show ?thesis by simp
  next
    case True
    from getitem_of_pickle [OF Cons.hyps(1) True] obtain v where g: "py_getitem h obj key = Inr v"
      by auto
    from True Cons.prems have "\<exists>p \<in> set ps. \<not> has_field key p" "\<forall>p \<in> set ps. is_record p"
      by auto
    with Cons.IH have "\<And>acc. find_by_loop h key value objs acc = Inl (KeyError key)"
      by blast
    with g show ?thesis by simp
  qed
qed

lemma find_by_filter:
  assumes "distinct (map fst (shelf s))" "\<forall>p \<in> set (collection r (shelf s)). has_field key p"
  shows "\<exists>l vs s'. find_by r key (VStr value) s = (Inr (VRef l), s') \<and> shelf s' = shelf s \<and>
           agrees (heap s) (heap s') \<and> l < length (heap s') \<and> heap s' ! l = OList vs \<and>
           list_all2 (\<lambda>v p. pickle (heap s') v = Some p) vs
             (filter (field_is key value) (collection r (shelf s))) \<and>
           pickle (heap s') (VRef l) = Some (PList (filter (field_is key value) (collection r (shelf s))))"
proof -
  from find_all_collection [OF assms(1), of r] obtain l0 objs s1
    where fa: "find_all r s = (Inr (VRef l0), s1)" and sh: "shelf s1 = shelf s"
      and a: "agrees (heap s) (heap s1)" and l0: "l0 < length (heap s1)" "heap s1 ! l0 = OList objs"
      and objs: "list_all2 (\<lambda>v p. pickle (heap s1) v = Some p) objs (collection r (shelf s))"
    by blast
  from find_by_loop_filter [OF objs assms(2), of "value" "[]"] obtain vs
    where lp: "find_by_loop (heap s1) key (VStr value) objs [] = Inr vs"
      and vs: "list_all2 (\<lambda>v p. pickle (heap s1) v = Some p) vs
                 (filter (field_is key value) (collection r (shelf s)))"
    by auto
  let ?s' = "s1\<lparr>heap := heap s1 @ [OList vs]\<rparr>"
  have f: "find_by r key (VStr value) s = (Inr (VRef (length (heap s1))), ?s')"
    using fa l0 lp by (simp add: find_by_def py_iter_def alloc_def)
  have a': "agrees (heap s1) (heap ?s')" by simp
  have vs': "list_all2 (\<lambda>v p. pickle (heap ?s') v = Some p) vs
               (filter (field_is key value) (collection r (shelf s)))"
    using vs a' by (rule list_all2_pickle_agrees)
  have "pickle (heap ?s') (VRef (length (heap s1)))
          = Some (PList (filter (field_is key value) (collection r (shelf s))))"
    using pickle_new_list [OF vs] by simp
  moreover have "agrees (heap s) (heap ?s')"
    using a a' by (rule agrees_trans)
  ultimately show ?thesis using f sh vs' by auto
qed

lemma startswith_append [simp]: "startswith (p @ i) p"
  by (induction p) auto

lemma collection_update_other:
  "\<not> startswith k (prefix r) \<Longrightarrow> collection r (AList.update k p sh) = collection r sh"
  by (induction sh) (auto simp: collection_def)

lemma mset_collection_cong: "mset sh' = mset sh \<Longrightarrow> mset (collection r sh') = mset (collection r sh)"
proof -
  assume "mset sh' = mset sh"
  then have "image_mset snd (filter_mset (\<lambda>kv. startswith (fst kv) (prefix r)) (mset sh'))
               = image_mset snd (filter_mset (\<lambda>kv. startswith (fst kv) (prefix r)) (mset sh))"
    by simp
  then show ?thesis by (simp add: collection_def)
qed



lemma device_key_not_room [simp]: "\<not> startswith (prefix get_device_repo @ i) (prefix get_room_repo)"
  by (simp add: get_device_repo_def get_room_repo_def Repository_def)

lemma room_key_not_device [simp]: "\<not> startswith (prefix get_room_repo @ i) (prefix get_device_repo)"
  by (simp add: get_device_repo_def get_room_repo_def Repository_def)

lemma prefix_get_room_repo [simp]: "prefix get_room_repo = ''room:''"
  by (simp add: get_room_repo_def Repository_def)

lemma prefix_get_device_repo [simp]: "prefix get_device_repo = ''device:''"
  by (simp add: get_device_repo_def Repository_def)

lemma shelf_getitem_shelf: "shelf (snd (shelf_getitem k s)) = shelf s"
  by (simp add: shelf_getitem_def split: option.splits prod.splits)

lemma find_shelf: "shelf (snd (find r i s)) = shelf s"
  by (simp add: find_def Let_def shelf_getitem_shelf)

lemma find_all_loop_shelf: "shelf (snd (find_all_loop r keys objs s)) = shelf s"
proof (induction keys arbitrary: objs s)
  case Nil
  show ?case by simp
next
  case (Cons key keys)
  show ?case
  proof (cases "startswith key (prefix r)")
    case False
    with Cons.IH show ?thesis by simp
  next
    case True
    obtain res s1 where g: "shelf_getitem key s = (res, s1)"
      by (cases "shelf_getitem key s")
    with shelf_getitem_shelf [of key s] have s1: "shelf s1 = shelf s"
      by simp
    show ?thesis
    proof (cases res)
      case (Inl e)
      with True g s1 show ?thesis by simp
    next
      case (Inr v)
      with True g s1 Cons.IH [of "objs @ [v]" s1] show ?thesis by simp
    qed
  qed
qed

lemma find_all_shelf: "shelf (snd (find_all r s)) = shelf s"
proof -
  obtain res s1 where l: "find_all_loop r (shelf_keys s) [] s = (res, s1)"
    by (cases "find_all_loop r (shelf_keys s) [] s")
  with find_all_loop_shelf [of r "shelf_keys s" "[]" s] have "shelf s1 = shelf s"
    by simp
  with l show ?thesis
    by (cases res) (simp_all add: find_all_def alloc_def)
qed

lemma find_by_shelf: "shelf (snd (find_by r key value s)) = shelf s"
proof -
  obtain res s1 where l: "find_all r s = (res, s1)"
    by (cases "find_all r s")
  with find_all_shelf [of r s] have "shelf s1 = shelf s"
    by simp
  with l show ?thesis
    by (cases res) (simp_all add: find_by_def alloc_def split: sum.splits)
qed

lemma decorate_with_room_shelf: "shelf (snd (decorate_with_room rr device s)) = shelf s"
proof (cases "py_getitem (heap s) device ''room_identifier''")
  case (Inl e)
  then show ?thesis by (simp add: decorate_with_room_def)
next
  case (Inr v)
  show ?thesis
  proof (cases "as_str v")
    case (Inl e)
    with Inr show ?thesis by (simp add: decorate_with_room_def)
  next
    case (Inr i)
    obtain res s1 where f: "find rr i s = (res, s1)"
      by (cases "find rr i s")
    with find_shelf [of rr i s] have "shelf s1 = shelf s"
      by simp
    with f Inr \<open>py_getitem (heap s) device ''room_identifier'' = Inr v\<close> show ?thesis
      by (cases res) (simp_all add: decorate_with_room_def split: sum.splits)
  qed
qed

lemma decorate_with_devices_shelf: "shelf (snd (decorate_with_devices dr room s)) = shelf s"
proof (cases "py_getitem (heap s) room ''identifier''")
  case (Inl e)
  then show ?thesis by (simp add: decorate_with_devices_def)
next
  case (Inr i)
  obtain res s1 where f: "find_by dr ''room_identifier'' i s = (res, s1)"
    by (cases "find_by dr ''room_identifier'' i s")
  with find_by_shelf [of dr "''room_identifier''" i s] have "shelf s1 = shelf s"
    by simp
  with f Inr show ?thesis
    by (cases res) (simp_all add: decorate_with_devices_def split: sum.splits prod.splits)
qed






lemma room_key_neq_device_key [simp]: "''room:'' @ i \<noteq> ''device:'' @ j"
  by simp

lemma pickle_fuel_dict_cell:
  assumes "a < length h" "h ! a = ODict d'" "those (map (pickle_field n h) d') = Some d"
  shows "pickle_fuel (Suc n) h (VRef a) = Some (PDict d)"
  using assms by (simp only: pickle_fuel_Suc_ref) simp

lemma pickle_fuel_list_cell:
  assumes "a < length h" "h ! a = OList xs" "those (map (pickle_fuel n h) xs) = Some ps"
  shows "pickle_fuel (Suc n) h (VRef a) = Some (PList ps)"
  using assms by (simp only: pickle_fuel_Suc_ref) simp

section \<open>Flat records\<close>

lemma unpickle_flat: "is_flat p \<Longrightarrow> unpickle p h = (unflat p, h)"
  by (cases p) (simp_all add: is_flat_def unflat_def)

lemma unpickle_fields_flat: "flat_record d \<Longrightarrow> unpickle_fields d h = (unflat_fields d, h)"
  by (induction d) (simp_all add: flat_record_def unflat_fields_def unpickle_flat)

lemma pickle_fuel_unflat: "is_flat p \<Longrightarrow> pickle_fuel n h (unflat p) = Some p"
  by (cases p) (simp_all add: is_flat_def unflat_def)

lemma pickle_fields_unflat:
  "flat_record d \<Longrightarrow> those (map (pickle_field n h) (unflat_fields d)) = Some d"
  by (induction d) (simp_all add: flat_record_def unflat_fields_def pickle_field_def pickle_fuel_unflat)

lemma map_of_unflat_fields: "map_of (unflat_fields d) k = map_option unflat (map_of d k)"
  by (induction d) (simp_all add: unflat_fields_def)

lemma keys_unflat_fields: "map fst (unflat_fields d) = map fst d"
  by (simp add: unflat_fields_def)

lemma unflat_PStr [simp]: "unflat (PStr x) = VStr x"
  by (simp add: unflat_def)

lemma pickle_fields_update:
  "those (map (pickle_field n h) d') = Some d \<Longrightarrow> pickle_fuel n h v = Some p \<Longrightarrow>
   those (map (pickle_field n h) (AList.update k v d')) = Some (AList.update k p d)"
proof (induction d' arbitrary: d)
  case Nil
  then show ?case by (simp add: pickle_field_Pair)
next
  case (Cons kv d')
  obtain k0 v0 where kv: "kv = (k0, v0)"
    by (cases kv)
  from Cons.prems(1) kv obtain y ys where y: "pickle_fuel n h v0 = Some y"
    and ys: "those (map (pickle_field n h) d') = Some ys" and d: "d = (k0, y) # ys"
    by (auto simp: pickle_field_Pair split: option.splits)
  from Cons.IH [OF ys Cons.prems(2)] y ys d kv Cons.prems(2) show ?case
    by (simp add: pickle_field_Pair)
qed

lemma pickle_fields_delete:
  "those (map (pickle_field n h) d') = Some d \<Longrightarrow>
   those (map (pickle_field n h) (AList.delete k d')) = Some (AList.delete k d)"
proof (induction d' arbitrary: d)
  case Nil
  then show ?case by simp
next
  case (Cons kv d')
  obtain k0 v0 where kv: "kv = (k0, v0)"
    by (cases kv)
  from Cons.prems(1) kv obtain y ys where y: "pickle_fuel n h v0 = Some y"
    and ys: "those (map (pickle_field n h) d') = Some ys" and d: "d = (k0, y) # ys"
    by (auto simp: pickle_field_Pair split: option.splits)
  from Cons.IH [OF ys] y ys d kv show ?case
    by (simp add: pickle_field_Pair)
qed

lemma pickle_flat_cell:
  assumes "a < length h" "h ! a = ODict (unflat_fields d)" "flat_record d"
  shows "pickle h (VRef a) = Some (PDict d)"
proof -
  from assms(1) obtain n where n: "length h = Suc n"
    by (cases "length h") auto
  have "pickle_fuel (Suc n) h (VRef a) = Some (PDict d)"
    using assms(1,2) pickle_fields_unflat [OF assms(3)] by (rule pickle_fuel_dict_cell)
  with n show ?thesis by (simp add: pickle_def)
qed

lemma find_flat_record:
  assumes "map_of (shelf s) (prefix r @ i) = Some (PDict d)" "flat_record d"
  shows "find r i s = (Inr (VRef (length (heap s))), s\<lparr>heap := heap s @ [ODict (unflat_fields d)]\<rparr>)"
  using assms by (simp add: find_def shelf_contains_iff shelf_getitem_def unpickle_fields_flat)

lemma decorate_with_room_flat:
  assumes room: "map_of (shelf s) (''room:'' @ i) = Some (PDict r1)" "flat_record r1"
    and dev: "a < length (heap s)" "heap s ! a = ODict (unflat_fields d1)"
      "map_of d1 ''room_identifier'' = Some (PStr i)"
  shows "decorate_with_room get_room_repo (VRef a) s =
           (Inr (), s\<lparr>heap := (heap s)[a := ODict (AList.delete ''room_identifier''
                        (AList.update ''room'' (VRef (length (heap s))) (unflat_fields d1)))]
                      @ [ODict (unflat_fields r1)]\<rparr>)"
proof -
  from room(1) have "map_of (shelf s) (prefix get_room_repo @ i) = Some (PDict r1)"
    by simp
  from find_flat_record [OF this room(2)]
  have f: "find get_room_repo i s
             = (Inr (VRef (length (heap s))), s\<lparr>heap := heap s @ [ODict (unflat_fields r1)]\<rparr>)" .
  from dev have g: "py_getitem (heap s) (VRef a) ''room_identifier'' = Inr (VStr i)"
    by (simp add: py_getitem_def map_of_unflat_fields)
  from dev(3) have "''room_identifier'' \<in> fst ` set (unflat_fields d1)"
    by (metis keys_unflat_fields map_of_eq_None_iff option.distinct(1) set_map)
  then have k: "''room_identifier'' \<in> fst ` set (AList.update ''room'' (VRef (length (heap s))) (unflat_fields d1))"
    by (simp add: AList.dom_update)
  from dev(1,2) f g k show ?thesis
    by (simp add: decorate_with_room_def as_str_def py_setitem_def py_delitem_def
          nth_append list_update_append)
qed

lemma find_by_single_device:
  assumes "shelf s = [(''room:'' @ i, PDict r1), (''device:'' @ j, PDict d1)] \<or>
           shelf s = [(''device:'' @ j, PDict d1), (''room:'' @ i, PDict r1)]"
    and "flat_record d1" "map_of d1 ''room_identifier'' = Some (PStr i)"
  shows "find_by get_device_repo ''room_identifier'' (VStr i) s =
           (Inr (VRef (Suc (Suc (length (heap s))))),
            s\<lparr>heap := heap s @ [ODict (unflat_fields d1), OList [VRef (length (heap s))],
                                 OList [VRef (length (heap s))]]\<rparr>)"
  using assms
  by (auto simp: find_by_def find_all_def shelf_keys_def shelf_getitem_def unpickle_fields_flat
        alloc_def py_iter_def py_getitem_def py_eq_VStr map_of_unflat_fields nth_append)

lemma decorate_with_devices_flat:
  assumes "shelf s = [(''room:'' @ i, PDict r1), (''device:'' @ j, PDict d1)] \<or>
           shelf s = [(''device:'' @ j, PDict d1), (''room:'' @ i, PDict r1)]"
    and "flat_record d1" "map_of d1 ''room_identifier'' = Some (PStr i)"
    and room: "a < length (heap s)" "heap s ! a = ODict (unflat_fields r1)"
      "map_of r1 ''identifier'' = Some (PStr i)"
  shows "decorate_with_devices get_device_repo (VRef a) s =
           (Inr (), s\<lparr>heap := (heap s)[a := ODict (AList.update ''devices''
                        (VRef (Suc (Suc (length (heap s))))) (unflat_fields r1))]
                      @ [ODict (AList.delete ''room_identifier'' (unflat_fields d1)),
                         OList [VRef (length (heap s))], OList [VRef (length (heap s))]]\<rparr>)"
proof -
  from room have g: "py_getitem (heap s) (VRef a) ''identifier'' = Inr (VStr i)"
    by (simp add: py_getitem_def map_of_unflat_fields)
  from assms(3) have k: "''room_identifier'' \<in> fst ` set (unflat_fields d1)"
    by (metis keys_unflat_fields map_of_eq_None_iff option.distinct(1) set_map)
  from room(1,2) g k find_by_single_device [OF assms(1,2,3)] show ?thesis
    by (simp add: decorate_with_devices_def py_iter_def py_setitem_def py_delitem_def
          nth_append list_update_append)
qed

section \<open>The properties of the registry\<close>

text \<open>
  \<^bold>\<open>C1\<close> (round trip). Let \<open>obj\<close> be a dictionary whose \<^verbatim>\<open>'identifier'\<close> is the string \<open>i\<close>,
  and \<open>p\<close> its deep value. Then \<open>save\<close> returns normally, and \<open>find\<close> of \<open>i\<close> on the same
  repository returns an object whose deep value is \<open>p\<close>: it is equal to \<open>obj\<close>, which still
  has the value \<open>p\<close> in the heap that \<open>find\<close> leaves. (Every dictionary of strings has a
  deep value, by \<open>pickle_flat_cell\<close>.)
\<close>

theorem save_find_roundtrip:
  assumes "py_getitem (heap s) obj ''identifier'' = Inr (VStr i)"
    and "pickle (heap s) obj = Some p"
  shows "\<exists>s1 v s2. save r obj s = (Inr (), s1) \<and> find r i s1 = (Inr v, s2) \<and>
           pickle (heap s2) v = Some p \<and> pickle (heap s2) obj = Some p"
proof -
  let ?s1 = "s\<lparr>shelf := dbm_store s (prefix r @ i) p\<rparr>"
  have "map_of (shelf ?s1) (prefix r @ i) = Some p"
    by (simp add: map_of_dbm_store_same)
  from find_present [OF this] obtain v s2 where f: "find r i ?s1 = (Inr v, s2)"
    and a: "agrees (heap ?s1) (heap s2)" and p: "pickle (heap s2) v = Some p"
    by blast
  from a have "agrees (heap s) (heap s2)" by simp
  from pickle_agrees [OF assms(2) this] save_stores [OF assms] f p
  show ?thesis by blast
qed

theorem save_find_roundtrip_witness:
  "py_getitem [ODict [(''identifier'', VStr ''d1''), (''name'', VStr ''lamp'')]] (VRef 0) ''identifier''
     = Inr (VStr ''d1'') \<and>
   pickle [ODict [(''identifier'', VStr ''d1''), (''name'', VStr ''lamp'')]] (VRef 0)
     = Some (PDict [(''identifier'', PStr ''d1''), (''name'', PStr ''lamp'')]) \<and>
   (\<exists>s1 v s2.
      save get_device_repo (VRef 0)
        \<lparr>shelf = [], heap = [ODict [(''identifier'', VStr ''d1''), (''name'', VStr ''lamp'')]], dbm_order = keep_order\<rparr>
        = (Inr (), s1) \<and>
      find get_device_repo ''d1'' s1 = (Inr v, s2) \<and>
      pickle (heap s2) v = Some (PDict [(''identifier'', PStr ''d1''), (''name'', PStr ''lamp'')]) \<and>
      pickle (heap s2) (VRef 0) = Some (PDict [(''identifier'', PStr ''d1''), (''name'', PStr ''lamp'')]))"
proof -
  let ?h = "[ODict [(''identifier'', VStr ''d1''), (''name'', VStr ''lamp'')]]"
  let ?p = "PDict [(''identifier'', PStr ''d1''), (''name'', PStr ''lamp'')]"
  have h1: "py_getitem (heap \<lparr>shelf = [], heap = ?h, dbm_order = keep_order\<rparr>) (VRef 0) ''identifier'' = Inr (VStr ''d1'')"
    by (simp add: py_getitem_def)
  have h2: "pickle (heap \<lparr>shelf = [], heap = ?h, dbm_order = keep_order\<rparr>) (VRef 0) = Some ?p"
    by (simp add: pickle_def)
  from save_find_roundtrip [OF h1 h2, of get_device_repo] h1 h2 show ?thesis
    by simp
qed

text \<open>
  \<^bold>\<open>C2\<close> (\<open>find_by\<close> is a filter). On a shelf that holds each key once and in which every
  record of the repository's collection has the field, \<open>find_by\<close> returns normally, leaves
  the shelf as it was, and the list it returns has as its deep value exactly the records of
  the collection whose field is the string \<open>value\<close>, and no others.
\<close>

theorem find_by_correct:
  assumes "distinct (map fst (shelf s))"
    and "\<forall>p \<in> set (collection r (shelf s)). has_field field p"
  shows "\<exists>v s'. find_by r field (VStr value) s = (Inr v, s') \<and> shelf s' = shelf s \<and>
           pickle (heap s') v
             = Some (PList (filter (field_is field value) (collection r (shelf s))))"
  using find_by_filter [OF assms, of "value"] by blast

theorem find_by_correct_witness:
  "distinct (map fst
     [(''device:d1'', PDict [(''identifier'', PStr ''d1''), (''room_identifier'', PStr ''r1'')]),
      (''room:r1'', PDict [(''identifier'', PStr ''r1'')]),
      (''device:d2'', PDict [(''identifier'', PStr ''d2''), (''room_identifier'', PStr ''r2'')])]) \<and>
   (\<exists>v s'. find_by get_device_repo ''room_identifier'' (VStr ''r1'')
       \<lparr>shelf =
          [(''device:d1'', PDict [(''identifier'', PStr ''d1''), (''room_identifier'', PStr ''r1'')]),
           (''room:r1'', PDict [(''identifier'', PStr ''r1'')]),
           (''device:d2'', PDict [(''identifier'', PStr ''d2''), (''room_identifier'', PStr ''r2'')])],
        heap = [], dbm_order = keep_order\<rparr> = (Inr v, s') \<and>
      pickle (heap s') v
        = Some (PList [PDict [(''identifier'', PStr ''d1''), (''room_identifier'', PStr ''r1'')]]))"
proof -
  let ?sh = "[(''device:d1'', PDict [(''identifier'', PStr ''d1''), (''room_identifier'', PStr ''r1'')]),
      (''room:r1'', PDict [(''identifier'', PStr ''r1'')]),
      (''device:d2'', PDict [(''identifier'', PStr ''d2''), (''room_identifier'', PStr ''r2'')])]"
  let ?s = "\<lparr>shelf = ?sh, heap = [], dbm_order = keep_order\<rparr>"
  have c: "collection get_device_repo ?sh
             = [PDict [(''identifier'', PStr ''d1''), (''room_identifier'', PStr ''r1'')],
                PDict [(''identifier'', PStr ''d2''), (''room_identifier'', PStr ''r2'')]]"
    by (simp add: collection_def get_device_repo_def Repository_def)
  have h1: "distinct (map fst (shelf ?s))"
    by simp
  have h2: "\<forall>p \<in> set (collection get_device_repo (shelf ?s)). has_field ''room_identifier'' p"
    by (simp add: c has_field_def)
  from find_by_correct [OF h1 h2, of "''r1''"] h1 show ?thesis
    by (simp add: c field_is_def) blast
qed

text \<open>
  \<^bold>\<open>C3\<close> (decoration round trip). Let the shelf hold exactly a room \<open>r1\<close> under
  \<^verbatim>\<open>room:\<close>\<open>i\<close> and a device \<open>d1\<close> under \<^verbatim>\<open>device:\<close>\<open>j\<close>, in either order, both flat records,
  with \<open>r1\<close>'s \<^verbatim>\<open>identifier\<close> and \<open>d1\<close>'s \<^verbatim>\<open>room_identifier\<close> equal to \<open>i\<close>. Then
  \<^item> \<open>decorate_with_room\<close> on the device object that \<open>find\<close> returns leaves that object
    with the value of \<open>d1\<close> in which \<^verbatim>\<open>room\<close> is \<open>r1\<close> and \<^verbatim>\<open>room_identifier\<close> is gone;
  \<^item> \<open>decorate_with_devices\<close> on the room object that \<open>find\<close> returns leaves that object
    with the value of \<open>r1\<close> in which \<^verbatim>\<open>devices\<close> is the one-element list of \<open>d1\<close> without
    its \<^verbatim>\<open>room_identifier\<close>.
\<close>

theorem decoration_roundtrip:
  assumes sh: "shelf s = [(''room:'' @ i, PDict r1), (''device:'' @ j, PDict d1)] \<or>
               shelf s = [(''device:'' @ j, PDict d1), (''room:'' @ i, PDict r1)]"
    and r1: "flat_record r1" "map_of r1 ''identifier'' = Some (PStr i)"
    and d1: "flat_record d1" "map_of d1 ''room_identifier'' = Some (PStr i)"
  shows "(\<exists>device s1 s2.
            find get_device_repo j s = (Inr device, s1) \<and>
            decorate_with_room get_room_repo device s1 = (Inr (), s2) \<and>
            pickle (heap s2) device
              = Some (PDict (AList.delete ''room_identifier'' (AList.update ''room'' (PDict r1) d1))) \<and>
            map_of (AList.delete ''room_identifier'' (AList.update ''room'' (PDict r1) d1)) ''room''
              = Some (PDict r1) \<and>
            ''room_identifier''
              \<notin> fst ` set (AList.delete ''room_identifier'' (AList.update ''room'' (PDict r1) d1))) \<and>
         (\<exists>room s1 s2.
            find get_room_repo i s = (Inr room, s1) \<and>
            decorate_with_devices get_device_repo room s1 = (Inr (), s2) \<and>
            pickle (heap s2) room
              = Some (PDict (AList.update ''devices''
                               (PList [PDict (AList.delete ''room_identifier'' d1)]) r1)))"
proof
  let ?n = "length (heap s)"
  let ?D = "unflat_fields d1" and ?R = "unflat_fields r1"
  from sh have md: "map_of (shelf s) (prefix get_device_repo @ j) = Some (PDict d1)"
    and mr: "map_of (shelf s) (''room:'' @ i) = Some (PDict r1)"
    by auto
  let ?s1 = "s\<lparr>heap := heap s @ [ODict ?D]\<rparr>"
  from find_flat_record [OF md d1(1)]
  have f: "find get_device_repo j s = (Inr (VRef ?n), ?s1)" .
  let ?D' = "AList.delete ''room_identifier'' (AList.update ''room'' (VRef (Suc ?n)) ?D)"
  let ?H = "heap s @ [ODict ?D', ODict ?R]"
  have "decorate_with_room get_room_repo (VRef ?n) ?s1
          = (Inr (), ?s1\<lparr>heap := (heap ?s1)[?n := ODict (AList.delete ''room_identifier''
                        (AList.update ''room'' (VRef (length (heap ?s1))) ?D))]
                      @ [ODict ?R]\<rparr>)"
    by (rule decorate_with_room_flat [where ?r1.0 = r1 and ?d1.0 = d1 and i = i])
       (use mr in \<open>simp_all add: r1 d1\<close>)
  then have dec: "decorate_with_room get_room_repo (VRef ?n) ?s1 = (Inr (), s\<lparr>heap := ?H\<rparr>)"
    by simp
  have room: "pickle_fuel (Suc ?n) ?H (VRef (Suc ?n)) = Some (PDict r1)"
    by (rule pickle_fuel_dict_cell [where d' = ?R]) (simp_all add: pickle_fields_unflat r1 nth_append)
  have "those (map (pickle_field (Suc ?n) ?H) ?D')
          = Some (AList.delete ''room_identifier'' (AList.update ''room'' (PDict r1) d1))"
    by (intro pickle_fields_delete pickle_fields_update pickle_fields_unflat d1 room)
  then have "pickle_fuel (Suc (Suc ?n)) ?H (VRef ?n)
          = Some (PDict (AList.delete ''room_identifier'' (AList.update ''room'' (PDict r1) d1)))"
    by (intro pickle_fuel_dict_cell [where d' = ?D']) simp_all
  then have p: "pickle (heap (s\<lparr>heap := ?H\<rparr>)) (VRef ?n)
          = Some (PDict (AList.delete ''room_identifier'' (AList.update ''room'' (PDict r1) d1)))"
    by (simp add: pickle_def)
  have look: "map_of (AList.delete ''room_identifier'' (AList.update ''room'' (PDict r1) d1)) ''room''
                = Some (PDict r1)"
    by (simp add: AList.delete_conv' AList.update_conv')
  have gone: "''room_identifier''
                \<notin> fst ` set (AList.delete ''room_identifier'' (AList.update ''room'' (PDict r1) d1))"
    by (rule AList.delete_notin_dom)
  from f dec p look gone
  show "\<exists>device s1 s2.
            find get_device_repo j s = (Inr device, s1) \<and>
            decorate_with_room get_room_repo device s1 = (Inr (), s2) \<and>
            pickle (heap s2) device
              = Some (PDict (AList.delete ''room_identifier'' (AList.update ''room'' (PDict r1) d1))) \<and>
            map_of (AList.delete ''room_identifier'' (AList.update ''room'' (PDict r1) d1)) ''room''
              = Some (PDict r1) \<and>
            ''room_identifier''
              \<notin> fst ` set (AList.delete ''room_identifier'' (AList.update ''room'' (PDict r1) d1))"
    by blast
next
  let ?n = "length (heap s)"
  let ?D = "unflat_fields d1" and ?R = "unflat_fields r1"
  from sh have mr: "map_of (shelf s) (prefix get_room_repo @ i) = Some (PDict r1)"
    by auto
  let ?s1 = "s\<lparr>heap := heap s @ [ODict ?R]\<rparr>"
  from find_flat_record [OF mr r1(1)]
  have f: "find get_room_repo i s = (Inr (VRef ?n), ?s1)" .
  let ?R' = "AList.update ''devices'' (VRef (Suc (Suc (Suc ?n)))) ?R"
  let ?Dd = "AList.delete ''room_identifier'' ?D"
  let ?H = "heap s @ [ODict ?R', ODict ?Dd, OList [VRef (Suc ?n)], OList [VRef (Suc ?n)]]"
  have "decorate_with_devices get_device_repo (VRef ?n) ?s1
          = (Inr (), ?s1\<lparr>heap := (heap ?s1)[?n := ODict (AList.update ''devices''
                        (VRef (Suc (Suc (length (heap ?s1))))) ?R)]
                      @ [ODict ?Dd, OList [VRef (length (heap ?s1))], OList [VRef (length (heap ?s1))]]\<rparr>)"
    by (rule decorate_with_devices_flat [where ?r1.0 = r1 and ?d1.0 = d1 and i = i and j = j])
       (use sh in \<open>simp_all add: r1 d1\<close>)
  then have dec: "decorate_with_devices get_device_repo (VRef ?n) ?s1 = (Inr (), s\<lparr>heap := ?H\<rparr>)"
    by simp
  have "those (map (pickle_field (Suc ?n) ?H) ?Dd) = Some (AList.delete ''room_identifier'' d1)"
    by (intro pickle_fields_delete pickle_fields_unflat d1)
  then have dev: "pickle_fuel (Suc (Suc ?n)) ?H (VRef (Suc ?n))
                    = Some (PDict (AList.delete ''room_identifier'' d1))"
    by (intro pickle_fuel_dict_cell [where d' = ?Dd]) (simp_all add: nth_append)
  have lst: "pickle_fuel (Suc (Suc (Suc ?n))) ?H (VRef (Suc (Suc (Suc ?n))))
               = Some (PList [PDict (AList.delete ''room_identifier'' d1)])"
  proof (rule pickle_fuel_list_cell [where xs = "[VRef (Suc ?n)]"])
    show "those (map (pickle_fuel (Suc (Suc ?n)) ?H) [VRef (Suc ?n)])
            = Some [PDict (AList.delete ''room_identifier'' d1)]"
      using dev by (simp del: pickle_fuel.simps)
  qed (simp_all add: nth_append)
  have "those (map (pickle_field (Suc (Suc (Suc ?n))) ?H) ?R')
          = Some (AList.update ''devices'' (PList [PDict (AList.delete ''room_identifier'' d1)]) r1)"
    by (intro pickle_fields_update pickle_fields_unflat r1 lst)
  then have "pickle_fuel (Suc (Suc (Suc (Suc ?n)))) ?H (VRef ?n)
          = Some (PDict (AList.update ''devices'' (PList [PDict (AList.delete ''room_identifier'' d1)]) r1))"
    by (intro pickle_fuel_dict_cell [where d' = ?R']) simp_all
  then have p: "pickle (heap (s\<lparr>heap := ?H\<rparr>)) (VRef ?n)
          = Some (PDict (AList.update ''devices'' (PList [PDict (AList.delete ''room_identifier'' d1)]) r1))"
    by (simp add: pickle_def)
  from f dec p
  show "\<exists>room s1 s2.
            find get_room_repo i s = (Inr room, s1) \<and>
            decorate_with_devices get_device_repo room s1 = (Inr (), s2) \<and>
            pickle (heap s2) room
              = Some (PDict (AList.update ''devices''
                               (PList [PDict (AList.delete ''room_identifier'' d1)]) r1))"
    by blast
qed

theorem decoration_roundtrip_witness:
  "(\<exists>device s1 s2.
      find get_device_repo ''d1'' store_one_device = (Inr device, s1) \<and>
      decorate_with_room get_room_repo device s1 = (Inr (), s2) \<and>
      pickle (heap s2) device
        = Some (PDict [(''identifier'', PStr ''d1''), (''name'', PStr ''lamp''),
                       (''device_type'', PStr ''light''), (''controller_name'', PStr ''hub''),
                       (''room'', room_r1)])) \<and>
   (\<exists>room s1 s2.
      find get_room_repo ''r1'' store_one_device = (Inr room, s1) \<and>
      decorate_with_devices get_device_repo room s1 = (Inr (), s2) \<and>
      pickle (heap s2) room
        = Some (PDict [(''identifier'', PStr ''r1''), (''name'', PStr ''hall''),
                       (''devices'',
                        PList [PDict [(''identifier'', PStr ''d1''), (''name'', PStr ''lamp''),
                                      (''device_type'', PStr ''light''),
                                      (''controller_name'', PStr ''hub'')]])]))"
proof -
  let ?r1 = "[(''identifier'', PStr ''r1''), (''name'', PStr ''hall'')]"
  let ?d1 = "[(''identifier'', PStr ''d1''), (''name'', PStr ''lamp''),
              (''device_type'', PStr ''light''), (''controller_name'', PStr ''hub''),
              (''room_identifier'', PStr ''r1'')]"
  have sh: "shelf store_one_device = [(''room:'' @ ''r1'', PDict ?r1), (''device:'' @ ''d1'', PDict ?d1)] \<or>
            shelf store_one_device = [(''device:'' @ ''d1'', PDict ?d1), (''room:'' @ ''r1'', PDict ?r1)]"
    by (simp add: store_one_device_def room_r1_def device_d1_def)
  have r1: "flat_record ?r1" "map_of ?r1 ''identifier'' = Some (PStr ''r1'')"
    by (simp_all add: flat_record_def is_flat_def)
  have d1: "flat_record ?d1" "map_of ?d1 ''room_identifier'' = Some (PStr ''r1'')"
    by (simp_all add: flat_record_def is_flat_def)
  from decoration_roundtrip [OF sh r1 d1] show ?thesis
    by (simp add: room_r1_def)
qed

text \<open>
  \<^bold>\<open>C4\<close> (decoration does not reach the shelf). Neither decorator changes the shelf,
  whatever object it is given and whether it returns or raises. In particular, for a
  device stored under \<^verbatim>\<open>device:\<close>\<open>i\<close> with value \<open>p\<close>: \<open>find\<close> returns an object of value
  \<open>p\<close>; after \<open>decorate_with_room\<close> has worked on that object, the shelf is the one before
  the call, and a new \<open>find\<close> of \<open>i\<close> returns an object whose value is again \<open>p\<close>, its
  \<^verbatim>\<open>room_identifier\<close> included.
\<close>

theorem decoration_leaves_store:
  "shelf (snd (decorate_with_room rr device s)) = shelf s \<and>
   shelf (snd (decorate_with_devices dr room s)) = shelf s \<and>
   (map_of (shelf s) (''device:'' @ i) = Some p \<longrightarrow>
    (\<exists>d s1. find get_device_repo i s = (Inr d, s1) \<and> pickle (heap s1) d = Some p \<and>
       shelf (snd (decorate_with_room get_room_repo d s1)) = shelf s \<and>
       (\<exists>d' s3. find get_device_repo i (snd (decorate_with_room get_room_repo d s1)) = (Inr d', s3) \<and>
          pickle (heap s3) d' = Some p)))"
proof (intro conjI impI)
  show "shelf (snd (decorate_with_room rr device s)) = shelf s"
    by (rule decorate_with_room_shelf)
  show "shelf (snd (decorate_with_devices dr room s)) = shelf s"
    by (rule decorate_with_devices_shelf)
next
  assume stored: "map_of (shelf s) (''device:'' @ i) = Some p"
  then have "map_of (shelf s) (prefix get_device_repo @ i) = Some p"
    by simp
  from find_present [OF this] obtain d s1 where f: "find get_device_repo i s = (Inr d, s1)"
    and sh1: "shelf s1 = shelf s" and p1: "pickle (heap s1) d = Some p"
    by blast
  let ?s2 = "snd (decorate_with_room get_room_repo d s1)"
  have sh2: "shelf ?s2 = shelf s"
    using sh1 by (simp add: decorate_with_room_shelf)
  with stored have "map_of (shelf ?s2) (prefix get_device_repo @ i) = Some p"
    by simp
  from find_present [OF this] obtain d' s3 where "find get_device_repo i ?s2 = (Inr d', s3)"
    "pickle (heap s3) d' = Some p"
    by blast
  with f p1 sh2
  show "\<exists>d s1. find get_device_repo i s = (Inr d, s1) \<and> pickle (heap s1) d = Some p \<and>
       shelf (snd (decorate_with_room get_room_repo d s1)) = shelf s \<and>
       (\<exists>d' s3. find get_device_repo i (snd (decorate_with_room get_room_repo d s1)) = (Inr d', s3) \<and>
          pickle (heap s3) d' = Some p)"
    by simp
qed

theorem decoration_leaves_store_witness:
  "\<exists>d s1. find get_device_repo ''d1''
       \<lparr>shelf = [(''room:r1'', PDict [(''identifier'', PStr ''r1'')]),
                 (''device:d1'', PDict [(''identifier'', PStr ''d1''), (''room_identifier'', PStr ''r1'')])],
        heap = [], dbm_order = keep_order\<rparr> = (Inr d, s1) \<and>
      pickle (heap s1) d = Some (PDict [(''identifier'', PStr ''d1''), (''room_identifier'', PStr ''r1'')]) \<and>
      shelf (snd (decorate_with_room get_room_repo d s1))
        = [(''room:r1'', PDict [(''identifier'', PStr ''r1'')]),
           (''device:d1'', PDict [(''identifier'', PStr ''d1''), (''room_identifier'', PStr ''r1'')])] \<and>
      (\<exists>d' s3. find get_device_repo ''d1'' (snd (decorate_with_room get_room_repo d s1)) = (Inr d', s3) \<and>
         pickle (heap s3) d' = Some (PDict [(''identifier'', PStr ''d1''), (''room_identifier'', PStr ''r1'')]))"
proof -
  let ?s = "\<lparr>shelf = [(''room:r1'', PDict [(''identifier'', PStr ''r1'')]),
                 (''device:d1'', PDict [(''identifier'', PStr ''d1''), (''room_identifier'', PStr ''r1'')])],
        heap = [], dbm_order = keep_order\<rparr>"
  have h: "map_of (shelf ?s) (''device:'' @ ''d1'')
             = Some (PDict [(''identifier'', PStr ''d1''), (''room_identifier'', PStr ''r1'')])"
    by simp
  from decoration_leaves_store [of get_room_repo VNone ?s get_device_repo VNone "''d1''"] h
  show ?thesis
    by simp
qed

text \<open>
  \<^bold>\<open>C5\<close> (referential rejection). When the shelf has no key \<^verbatim>\<open>room:\<close>\<open>i\<close>, registering a
  device whose \<^verbatim>\<open>room_identifier\<close> is \<open>i\<close> returns the 400 response
  \<^verbatim>\<open>Room does not exist\<close> and the shelf is left exactly as it was: the check comes before
  the write, and no device record is created.
\<close>

theorem referential_rejection:
  assumes "\<not> shelf_contains (''room:'' @ room_identifier) s"
  shows "\<exists>s'. DeviceList_post identifier name device_type controller_name room_identifier s
                 = (Inr (Message ''Room does not exist'', 400), s') \<and>
              shelf s' = shelf s"
proof -
  let ?args = "ODict [(''identifier'', VStr identifier), (''name'', VStr name),
                      (''device_type'', VStr device_type),
                      (''controller_name'', VStr controller_name),
                      (''room_identifier'', VStr room_identifier)]"
  let ?s0 = "s\<lparr>heap := heap s @ [?args]\<rparr>"
  from assms have "\<not> shelf_contains (prefix get_room_repo @ room_identifier) ?s0"
    by (simp add: shelf_contains_def)
  from find_absent [OF this] show ?thesis
    by (simp add: DeviceList_post_def alloc_def)
qed

theorem referential_rejection_witness:
  "\<exists>s'. DeviceList_post ''d1'' ''lamp'' ''light'' ''hub'' ''nonexistent''
           \<lparr>shelf = [(''room:r1'', PDict [(''identifier'', PStr ''r1''), (''name'', PStr ''hall'')])],
            heap = [], dbm_order = keep_order\<rparr>
         = (Inr (Message ''Room does not exist'', 400), s') \<and>
        shelf s' = [(''room:r1'', PDict [(''identifier'', PStr ''r1''), (''name'', PStr ''hall'')])]"
proof -
  let ?s = "\<lparr>shelf = [(''room:r1'', PDict [(''identifier'', PStr ''r1''), (''name'', PStr ''hall'')])],
            heap = [], dbm_order = keep_order\<rparr>"
  have h: "\<not> shelf_contains (''room:'' @ ''nonexistent'') ?s"
    by (simp add: shelf_contains_def)
  from referential_rejection [OF h, of "''d1''" "''lamp''" "''light''" "''hub''"] show ?thesis
    by simp
qed




text \<open>
  \<^bold>\<open>C7\<close> (delete, then find). For every identifier whose key is in the shelf, \<open>delete\<close>
  returns normally; in the state it leaves, \<open>find\<close> of the same identifier returns \<^verbatim>\<open>None\<close>
  (and changes nothing), and a second \<open>delete\<close> raises the KeyError of the shelf for the
  missing key \<^verbatim>\<open>prefix + identifier\<close>.
\<close>

theorem delete_then_find:
  assumes "shelf_contains (prefix r @ i) s"
  shows "\<exists>s'. delete r i s = (Inr (), s') \<and> find r i s' = (Inr VNone, s') \<and>
           delete r i s' = (Inl (KeyError (prefix r @ i)), s')"
proof -
  let ?s' = "s\<lparr>shelf := AList.delete (prefix r @ i) (shelf s)\<rparr>"
  have gone: "\<not> shelf_contains (prefix r @ i) ?s'"
    using AList.delete_notin_dom [of "prefix r @ i" "shelf s"]
    by (simp add: shelf_contains_def)
  from delete_removes [OF assms] find_absent [OF gone] delete_missing [OF gone]
  show ?thesis by blast
qed

theorem delete_then_find_witness:
  "shelf_contains (prefix get_device_repo @ ''d1'')
     \<lparr>shelf = [(''device:d1'', PDict [(''identifier'', PStr ''d1'')])], heap = [], dbm_order = keep_order\<rparr> \<and>
   (\<exists>s'. delete get_device_repo ''d1''
            \<lparr>shelf = [(''device:d1'', PDict [(''identifier'', PStr ''d1'')])], heap = [], dbm_order = keep_order\<rparr> = (Inr (), s') \<and>
          find get_device_repo ''d1'' s' = (Inr VNone, s') \<and>
          delete get_device_repo ''d1'' s' = (Inl (KeyError (prefix get_device_repo @ ''d1'')), s'))"
proof -
  have h: "shelf_contains (prefix get_device_repo @ ''d1'')
     \<lparr>shelf = [(''device:d1'', PDict [(''identifier'', PStr ''d1'')])], heap = [], dbm_order = keep_order\<rparr>"
    by (simp add: shelf_contains_def get_device_repo_def Repository_def)
  from h delete_then_find [OF h] show ?thesis by blast
qed

text \<open>
  \<^bold>\<open>C8\<close> (prefix isolation). Saving a record through the device repository, whatever its
  identifier and whatever the shelf holds (a room with the same identifier included), puts
  it under a key that does not start with \<^verbatim>\<open>room:\<close> and adds nothing to the room collection:
  the records that the room repository's \<open>find_all\<close> returns after the save are, as a
  multiset, the room records that were there before it. The insert may have put the keys
  of the file in a new order; the statement holds for the order that \<open>dbm_order\<close> gives and,
  besides, for every other order of the entries that the save has left.
\<close>

theorem prefix_isolation:
  assumes "py_getitem (heap s) obj ''identifier'' = Inr (VStr i)"
    and "pickle (heap s) obj = Some p"
    and "distinct (map fst (shelf s))"
  shows "\<exists>s1. save get_device_repo obj s = (Inr (), s1) \<and>
           map_of (shelf s1) (''device:'' @ i) = Some p \<and>
           \<not> startswith (''device:'' @ i) (prefix get_room_repo) \<and>
           mset (collection get_room_repo (shelf s1)) = mset (collection get_room_repo (shelf s)) \<and>
           (\<exists>v ps s2. find_all get_room_repo s1 = (Inr v, s2) \<and>
              pickle (heap s2) v = Some (PList ps) \<and>
              mset ps = mset (collection get_room_repo (shelf s))) \<and>
           (\<forall>s1'. mset (shelf s1') = mset (shelf s1) \<longrightarrow>
              (\<exists>v ps s2. find_all get_room_repo s1' = (Inr v, s2) \<and>
                 pickle (heap s2) v = Some (PList ps) \<and>
                 mset ps = mset (collection get_room_repo (shelf s))))"
proof -
  let ?k = "prefix get_device_repo @ i"
  let ?s1 = "s\<lparr>shelf := dbm_store s ?k p\<rparr>"
  have "mset (collection get_room_repo (shelf ?s1))
          = mset (collection get_room_repo (AList.update ?k p (shelf s)))"
    by (simp add: mset_collection_cong [OF mset_dbm_store])
  then have c: "mset (collection get_room_repo (shelf ?s1)) = mset (collection get_room_repo (shelf s))"
    by (simp add: collection_update_other)
  have d1: "distinct (map fst (shelf ?s1))"
    using assms(3) by (simp add: distinct_dbm_store)
  have every: "\<exists>v ps s2. find_all get_room_repo s1' = (Inr v, s2) \<and>
                 pickle (heap s2) v = Some (PList ps) \<and>
                 mset ps = mset (collection get_room_repo (shelf s))"
    if perm: "mset (shelf s1') = mset (shelf ?s1)" for s1'
  proof -
    from perm have "mset (map fst (shelf s1')) = mset (map fst (shelf ?s1))"
      by simp
    with d1 have "distinct (map fst (shelf s1'))"
      using mset_eq_imp_distinct_iff by blast
    from find_all_collection [OF this, of get_room_repo]
    obtain l s2 where "find_all get_room_repo s1' = (Inr (VRef l), s2)"
      "pickle (heap s2) (VRef l) = Some (PList (collection get_room_repo (shelf s1')))"
      by blast
    moreover from mset_collection_cong [OF perm] c
    have "mset (collection get_room_repo (shelf s1')) = mset (collection get_room_repo (shelf s))"
      by simp
    ultimately show ?thesis by blast
  qed
  have here: "\<exists>v ps s2. find_all get_room_repo ?s1 = (Inr v, s2) \<and>
                 pickle (heap s2) v = Some (PList ps) \<and>
                 mset ps = mset (collection get_room_repo (shelf s))"
    by (rule every) simp
  have "map_of (shelf ?s1) (''device:'' @ i) = Some p"
    using map_of_dbm_store_same [of s ?k p] by simp
  moreover have "\<not> startswith (''device:'' @ i) (prefix get_room_repo)"
    by simp
  ultimately show ?thesis
    using save_stores [OF assms(1,2), of get_device_repo] c here every by blast
qed

theorem prefix_isolation_witness:
  "\<exists>s1. save get_device_repo (VRef 0)
      \<lparr>shelf = [(''room:x'', PDict [(''identifier'', PStr ''x''), (''name'', PStr ''hall'')])],
       heap = [ODict [(''identifier'', VStr ''x''), (''name'', VStr ''lamp'')]],
       dbm_order = devices_first\<rparr> = (Inr (), s1) \<and>
     shelf s1 = [(''device:x'', PDict [(''identifier'', PStr ''x''), (''name'', PStr ''lamp'')]),
                 (''room:x'', PDict [(''identifier'', PStr ''x''), (''name'', PStr ''hall'')])] \<and>
     (\<exists>v ps s2. find_all get_room_repo s1 = (Inr v, s2) \<and> pickle (heap s2) v = Some (PList ps) \<and>
        mset ps = {#PDict [(''identifier'', PStr ''x''), (''name'', PStr ''hall'')]#}) \<and>
     (\<exists>v ps s2.
        find_all get_room_repo
          \<lparr>shelf = [(''room:x'', PDict [(''identifier'', PStr ''x''), (''name'', PStr ''hall'')]),
                    (''device:x'', PDict [(''identifier'', PStr ''x''), (''name'', PStr ''lamp'')])],
           heap = [], dbm_order = keep_order\<rparr> = (Inr v, s2) \<and>
        pickle (heap s2) v = Some (PList ps) \<and>
        mset ps = {#PDict [(''identifier'', PStr ''x''), (''name'', PStr ''hall'')]#})"
proof -
  let ?h = "[ODict [(''identifier'', VStr ''x''), (''name'', VStr ''lamp'')]]"
  let ?room = "(''room:x'', PDict [(''identifier'', PStr ''x''), (''name'', PStr ''hall'')])"
  let ?device = "(''device:x'', PDict [(''identifier'', PStr ''x''), (''name'', PStr ''lamp'')])"
  let ?s = "\<lparr>shelf = [?room], heap = ?h, dbm_order = devices_first\<rparr>"
  let ?s1 = "\<lparr>shelf = [?device, ?room], heap = ?h, dbm_order = devices_first\<rparr>"
  let ?t = "\<lparr>shelf = [?room, ?device], heap = [], dbm_order = keep_order\<rparr>"
  have h1: "py_getitem (heap ?s) (VRef 0) ''identifier'' = Inr (VStr ''x'')"
    by (simp add: py_getitem_def)
  have h2: "pickle (heap ?s) (VRef 0) = Some (PDict [(''identifier'', PStr ''x''), (''name'', PStr ''lamp'')])"
    by (simp add: pickle_def)
  have h3: "distinct (map fst (shelf ?s))"
    by simp
  have c: "collection get_room_repo [?room] = [PDict [(''identifier'', PStr ''x''), (''name'', PStr ''hall'')]]"
    by (simp add: collection_def)
  have sv: "save get_device_repo (VRef 0) ?s = (Inr (), ?s1)"
    by (simp add: save_def py_getitem_def as_str_def shelf_setitem_def pickle_def
          dbm_store_def dbm_insert_def shelf_contains_def devices_first_def)
  from prefix_isolation [OF h1 h2 h3] sv
  have here: "\<exists>v ps s2. find_all get_room_repo ?s1 = (Inr v, s2) \<and>
                pickle (heap s2) v = Some (PList ps) \<and>
                mset ps = mset (collection get_room_repo (shelf ?s))"
    and every: "\<forall>s1'. mset (shelf s1') = mset (shelf ?s1) \<longrightarrow>
              (\<exists>v ps s2. find_all get_room_repo s1' = (Inr v, s2) \<and>
                 pickle (heap s2) v = Some (PList ps) \<and>
                 mset ps = mset (collection get_room_repo (shelf ?s)))"
    by auto
  have "mset (shelf ?t) = mset (shelf ?s1)"
    by simp
  with every have there: "\<exists>v ps s2. find_all get_room_repo ?t = (Inr v, s2) \<and>
                 pickle (heap s2) v = Some (PList ps) \<and>
                 mset ps = mset (collection get_room_repo (shelf ?s))"
    by blast
  from sv here there show ?thesis
    by (simp add: c)
qed

text \<open>
  \<^bold>\<open>C9\<close> (\<open>find_by\<close> on a record without the field). On a shelf that holds each key once
  and whose collection consists of dictionaries, at least one of which lacks the field,
  \<open>find_by\<close> raises the KeyError of the failed field access, whatever value is looked for; no
  record is skipped. The shelf is left as it was.
\<close>

theorem find_by_missing_field:
  assumes "distinct (map fst (shelf s))"
    and "\<forall>p \<in> set (collection r (shelf s)). is_record p"
    and "\<exists>p \<in> set (collection r (shelf s)). \<not> has_field field p"
  shows "\<exists>s'. find_by r field value s = (Inl (KeyError field), s') \<and> shelf s' = shelf s"
proof -
  from find_all_collection [OF assms(1), of r] obtain l0 objs s1
    where fa: "find_all r s = (Inr (VRef l0), s1)" and sh: "shelf s1 = shelf s"
      and l0: "l0 < length (heap s1)" "heap s1 ! l0 = OList objs"
      and objs: "list_all2 (\<lambda>v p. pickle (heap s1) v = Some p) objs (collection r (shelf s))"
    by blast
  from find_by_loop_missing [OF objs assms(2,3), of "value" "[]"] fa l0 sh
  show ?thesis by (simp add: find_by_def py_iter_def)
qed

theorem find_by_missing_field_witness:
  "\<exists>s'. find_by get_device_repo ''room_identifier'' (VStr ''r1'')
       \<lparr>shelf =
          [(''device:d1'', PDict [(''identifier'', PStr ''d1''), (''room_identifier'', PStr ''r1'')]),
           (''device:d2'', PDict [(''identifier'', PStr ''d2'')])],
        heap = [], dbm_order = keep_order\<rparr> = (Inl (KeyError ''room_identifier''), s')"
proof -
  let ?sh = "[(''device:d1'', PDict [(''identifier'', PStr ''d1''), (''room_identifier'', PStr ''r1'')]),
           (''device:d2'', PDict [(''identifier'', PStr ''d2'')])]"
  let ?s = "\<lparr>shelf = ?sh, heap = [], dbm_order = keep_order\<rparr>"
  have c: "collection get_device_repo ?sh
             = [PDict [(''identifier'', PStr ''d1''), (''room_identifier'', PStr ''r1'')],
                PDict [(''identifier'', PStr ''d2'')]]"
    by (simp add: collection_def get_device_repo_def Repository_def)
  have h1: "distinct (map fst (shelf ?s))"
    by simp
  have h2: "\<forall>p \<in> set (collection get_device_repo (shelf ?s)). is_record p"
    by (simp add: c is_record_def)
  have h3: "\<exists>p \<in> set (collection get_device_repo (shelf ?s)). \<not> has_field ''room_identifier'' p"
    by (simp add: c has_field_def)
  from find_by_missing_field [OF h1 h2 h3, of "VStr ''r1''"] show ?thesis
    by blast
qed



end
